theory Spec2Isabelle
  imports Complex_Main "HOL-Library.Sublist"
begin

section \<open>Strings and the library functions the chunker calls\<close>

text \<open>
  A Python \<open>str\<close> is modelled as a \<open>string\<close>, each \<open>char\<close> standing for one code
  point below 256. \<open>isspace\<close> is the whitespace class that \<open>str.strip\<close>, \<open>str.split\<close>
  and the regular expression class \<open>\s\<close> share in CPython, restricted to that range.
\<close>

definition isspace :: "char \<Rightarrow> bool" where
  "isspace c \<longleftrightarrow> c \<in> set [CHR 0x09, CHR 0x0A, CHR 0x0B, CHR 0x0C, CHR 0x0D,
     CHR 0x1C, CHR 0x1D, CHR 0x1E, CHR 0x1F, CHR 0x20, CHR 0x85, CHR 0xA0]"

definition lstrip :: "string \<Rightarrow> string" where
  "lstrip s = dropWhile isspace s"

definition rstrip :: "string \<Rightarrow> string" where
  "rstrip s = rev (dropWhile isspace (rev s))"

text \<open>\<open>s.strip()\<close>\<close>

definition strip :: "string \<Rightarrow> string" where
  "strip s = rstrip (lstrip s)"

text \<open>
  \<open>re.sub(r"\s+", " ", s)\<close>: every maximal run of whitespace becomes one space.
  The flag says that the previous character belonged to a run already replaced.
\<close>

fun re_sub_ws :: "bool \<Rightarrow> string \<Rightarrow> string" where
  "re_sub_ws inrun [] = []"
| "re_sub_ws inrun (c # cs) =
     (if isspace c then (if inrun then re_sub_ws True cs else CHR '' '' # re_sub_ws True cs)
      else c # re_sub_ws False cs)"

text \<open>
  \<open>re.split(r"(?<=[.!?])\s+", s)\<close>: a separator is a maximal run of whitespace that
  directly follows one of \<open>.\<close>, \<open>!\<close>, \<open>?\<close>. \<open>cur\<close> is the piece read so far, and
  \<open>skipping\<close> says that the scan is inside a separator. A whitespace character that
  follows anything else (or starts the text) belongs to the piece.
\<close>

definition sentence_end :: "char \<Rightarrow> bool" where
  "sentence_end c \<longleftrightarrow> c \<in> set ''.!?''"

fun re_split_sentences :: "bool \<Rightarrow> string \<Rightarrow> string \<Rightarrow> string list" where
  "re_split_sentences skipping cur [] = [cur]"
| "re_split_sentences skipping cur (c # cs) =
     (if isspace c \<and> skipping then re_split_sentences True cur cs
      else if isspace c \<and> cur \<noteq> [] \<and> sentence_end (last cur)
        then cur # re_split_sentences True [] cs
      else re_split_sentences False (cur @ [c]) cs)"

text \<open>\<open>s.split()\<close>: the maximal whitespace-free pieces of \<open>s\<close>; \<open>w\<close> is the word read so far.\<close>

fun split_ws :: "string \<Rightarrow> string \<Rightarrow> string list" where
  "split_ws w [] = (if w = [] then [] else [w])"
| "split_ws w (c # cs) =
     (if isspace c then (if w = [] then split_ws [] cs else w # split_ws [] cs)
      else split_ws (w @ [c]) cs)"

text \<open>\<open>" ".join(xs)\<close>\<close>

fun join_sp :: "string list \<Rightarrow> string" where
  "join_sp [] = []"
| "join_sp [x] = x"
| "join_sp (x # y # ys) = x @ '' '' @ join_sp (y # ys)"

section \<open>DocumentProcessorManager\<close>

record manager =
  chunk_size :: int
  chunk_overlap :: int
  max_file_size :: int

subsection \<open>chunk_text\<close>

text \<open>
  The first loop of \<open>chunk_text\<close>, over the sentences, with the list \<open>chunks\<close> and the
  buffer \<open>current_chunk\<close> as explicit state.
\<close>

fun sentence_loop :: "int \<Rightarrow> int \<Rightarrow> string list \<Rightarrow> string \<Rightarrow> string list
    \<Rightarrow> string list \<times> string" where
  "sentence_loop csz overlap chunks current_chunk [] = (chunks, current_chunk)"
| "sentence_loop csz overlap chunks current_chunk (sentence # sentences) =
     (if int (length current_chunk) + int (length sentence) > csz \<and> current_chunk \<noteq> []
      then sentence_loop csz overlap (chunks @ [strip current_chunk])
             (if overlap > 0 \<and> int (length current_chunk) > overlap
              then drop (length current_chunk - nat overlap) current_chunk @ '' '' @ sentence
              else sentence)
             sentences
      else sentence_loop csz overlap chunks
             (if current_chunk \<noteq> [] then current_chunk @ '' '' @ sentence else sentence)
             sentences)"

text \<open>The inner loop over the words of a chunk that is longer than \<open>chunk_size\<close>.\<close>

fun word_loop :: "int \<Rightarrow> string list \<Rightarrow> string \<Rightarrow> string list \<Rightarrow> string list \<times> string" where
  "word_loop csz final_chunks current_sub_chunk [] = (final_chunks, current_sub_chunk)"
| "word_loop csz final_chunks current_sub_chunk (word # words) =
     (if int (length current_sub_chunk) + int (length word) + 1 \<le> csz
      then word_loop csz final_chunks
             (if current_sub_chunk \<noteq> [] then current_sub_chunk @ '' '' @ word else word) words
      else word_loop csz
             (if current_sub_chunk \<noteq> [] then final_chunks @ [current_sub_chunk] else final_chunks)
             word words)"

text \<open>The second loop, over the chunks of the first.\<close>

fun chunk_loop :: "int \<Rightarrow> string list \<Rightarrow> string list \<Rightarrow> string list" where
  "chunk_loop csz final_chunks [] = final_chunks"
| "chunk_loop csz final_chunks (chunk # chunks) =
     (if int (length chunk) \<le> csz then chunk_loop csz (final_chunks @ [chunk]) chunks
      else (case word_loop csz final_chunks [] (split_ws [] chunk) of
              (final_chunks', current_sub_chunk) \<Rightarrow>
                chunk_loop csz
                  (if current_sub_chunk \<noteq> [] then final_chunks' @ [current_sub_chunk]
                   else final_chunks')
                  chunks))"

text \<open>The chunks that the first loop and the flush after it leave in \<open>chunks\<close>.\<close>

definition sentence_chunks :: "int \<Rightarrow> int \<Rightarrow> string \<Rightarrow> string list" where
  "sentence_chunks csz overlap text =
     (case sentence_loop csz overlap [] [] (re_split_sentences False [] text) of
        (chunks, current_chunk) \<Rightarrow>
          if strip current_chunk \<noteq> [] then chunks @ [strip current_chunk] else chunks)"

text \<open>
  \<open>chunk_text(self, text, chunk_size=None)\<close>; the optional argument is an \<open>option\<close>.
\<close>

definition chunk_text :: "manager \<Rightarrow> string \<Rightarrow> int option \<Rightarrow> string list" where
  "chunk_text self text chunk_size_arg =
     (let csz = (case chunk_size_arg of None \<Rightarrow> chunk_size self | Some n \<Rightarrow> n) in
      if text = [] \<or> strip text = [] then []
      else let text' = re_sub_ws False (strip text) in
        if int (length text') \<le> csz then [text']
        else chunk_loop csz [] (sentence_chunks csz (chunk_overlap self) text'))"

section \<open>The score normaliser\<close>

text \<open>
  A Python \<open>float\<close> is a finite value, an infinity or NaN. Finite values are real numbers:
  arithmetic on them is exact here, where IEEE 754 rounds (and gives an infinity when
  \<open>1.0 / x\<close> overflows for a tiny \<open>x\<close>); the zero has no sign.
\<close>

datatype pyfloat = Finite real | PosInf | NegInf | NaN

text \<open>The values \<open>correct_pgvector_score\<close> can be called with; \<open>PyList\<close> stands for the
  objects that are neither strings nor numbers.\<close>

datatype pyvalue = PyNone | PyStr string | PyBool bool | PyInt int | PyFloat pyfloat
  | PyList "pyvalue list"

datatype pyerror = TypeError | ValueError | OverflowError | ZeroDivisionError

text \<open>
  \<open>float(v)\<close>. How a string is read is the parameter \<open>parse\<close>: \<open>None\<close> where \<open>float\<close>
  raises \<open>ValueError\<close>. An \<open>int\<close> converts when it rounds to a finite double, that is
  below \<open>2^1024 - 2^970\<close> in magnitude, and raises \<open>OverflowError\<close> otherwise.
\<close>

fun py_float :: "(string \<Rightarrow> pyfloat option) \<Rightarrow> pyvalue \<Rightarrow> pyerror + pyfloat" where
  "py_float parse PyNone = Inl TypeError"
| "py_float parse (PyStr s) = (case parse s of None \<Rightarrow> Inl ValueError | Some f \<Rightarrow> Inr f)"
| "py_float parse (PyBool b) = Inr (Finite (if b then 1 else 0))"
| "py_float parse (PyInt i) =
     (if \<bar>i\<bar> < 2 ^ 1024 - 2 ^ 970 then Inr (Finite (of_int i)) else Inl OverflowError)"
| "py_float parse (PyFloat f) = Inr f"
| "py_float parse (PyList vs) = Inl TypeError"

text \<open>The comparisons \<open>a < b\<close> and \<open>a <= b\<close> of two floats; with NaN both are false.\<close>

fun py_lt :: "pyfloat \<Rightarrow> pyfloat \<Rightarrow> bool" where
  "py_lt NaN b = False"
| "py_lt a NaN = False"
| "py_lt (Finite a) (Finite b) = (a < b)"
| "py_lt a PosInf = (a \<noteq> PosInf)"
| "py_lt NegInf b = (b \<noteq> NegInf)"
| "py_lt a b = False"

definition py_le :: "pyfloat \<Rightarrow> pyfloat \<Rightarrow> bool" where
  "py_le a b \<longleftrightarrow> a \<noteq> NaN \<and> b \<noteq> NaN \<and> (a = b \<or> py_lt a b)"

text \<open>The built-in \<open>min(a, b)\<close> and \<open>max(a, b)\<close>: the first argument unless the second
  is smaller (larger).\<close>

definition py_min :: "pyfloat \<Rightarrow> pyfloat \<Rightarrow> pyfloat" where
  "py_min a b = (if py_lt b a then b else a)"

definition py_max :: "pyfloat \<Rightarrow> pyfloat \<Rightarrow> pyfloat" where
  "py_max a b = (if py_lt a b then b else a)"

text \<open>\<open>a + b\<close>, \<open>a - b\<close> and \<open>a / b\<close>.\<close>

fun py_neg :: "pyfloat \<Rightarrow> pyfloat" where
  "py_neg (Finite a) = Finite (- a)"
| "py_neg PosInf = NegInf"
| "py_neg NegInf = PosInf"
| "py_neg NaN = NaN"

fun py_add :: "pyfloat \<Rightarrow> pyfloat \<Rightarrow> pyfloat" where
  "py_add NaN b = NaN"
| "py_add a NaN = NaN"
| "py_add (Finite a) (Finite b) = Finite (a + b)"
| "py_add PosInf NegInf = NaN"
| "py_add NegInf PosInf = NaN"
| "py_add (Finite a) b = b"
| "py_add a b = a"

definition py_sub :: "pyfloat \<Rightarrow> pyfloat \<Rightarrow> pyfloat" where
  "py_sub a b = py_add a (py_neg b)"

fun py_truediv :: "pyfloat \<Rightarrow> pyfloat \<Rightarrow> pyerror + pyfloat" where
  "py_truediv a (Finite b) =
     (if b = 0 then Inl ZeroDivisionError
      else Inr (case a of Finite x \<Rightarrow> Finite (x / b)
                | PosInf \<Rightarrow> (if 0 < b then PosInf else NegInf)
                | NegInf \<Rightarrow> (if 0 < b then NegInf else PosInf)
                | NaN \<Rightarrow> NaN))"
| "py_truediv (Finite a) PosInf = Inr (Finite 0)"
| "py_truediv (Finite a) NegInf = Inr (Finite 0)"
| "py_truediv a b = Inr NaN"

text \<open>
  The body of the \<open>try\<close> block of \<open>correct_pgvector_score\<close>: an exception is \<open>Inl\<close>.
\<close>

definition normalize_score :: "(string \<Rightarrow> pyfloat option) \<Rightarrow> pyvalue \<Rightarrow> pyerror + pyvalue" where
  "normalize_score parse score =
     (case py_float parse score of
        Inl e \<Rightarrow> Inl e
      | Inr score_float \<Rightarrow>
          if score_float = PosInf then Inr (PyFloat (Finite 1))
          else if py_le score_float (Finite 0) then Inr (PyFloat (Finite 0))
          else (case py_truediv (Finite 1) score_float of
                  Inl e \<Rightarrow> Inl e
                | Inr original_distance \<Rightarrow>
                    (let corrected_similarity = py_sub (Finite 1) original_distance;
                         clamped_similarity =
                           py_max (Finite (- 1)) (py_min (Finite 1) corrected_similarity)
                     in (case py_truediv (py_add clamped_similarity (Finite 1)) (Finite 2) of
                           Inl e \<Rightarrow> Inl e
                         | Inr normalized_score \<Rightarrow> Inr (PyFloat normalized_score)))))"

text \<open>
  \<open>correct_pgvector_score(score)\<close>: the handler \<open>except (ValueError, ZeroDivisionError)\<close>
  returns the argument; every other exception leaves the function.
\<close>

definition correct_pgvector_score ::
    "(string \<Rightarrow> pyfloat option) \<Rightarrow> pyvalue \<Rightarrow> pyerror + pyvalue" where
  "correct_pgvector_score parse score =
     (if score = PyStr ''N/A'' \<or> score = PyNone then Inr score
      else (case normalize_score parse score of
              Inl ValueError \<Rightarrow> Inr score
            | Inl ZeroDivisionError \<Rightarrow> Inr score
            | Inl e \<Rightarrow> Inl e
            | Inr v \<Rightarrow> Inr v))"

section \<open>Paths, files and the extractors\<close>

text \<open>\<open>sub in s\<close> for two strings.\<close>

fun str_contains :: "string \<Rightarrow> string \<Rightarrow> bool" where
  "str_contains sub [] = (sub = [])"
| "str_contains sub (c # cs) = (prefix sub (c # cs) \<or> str_contains sub cs)"

text \<open>\<open>s.split(sep)\<close> for a separator of one character; \<open>w\<close> is the piece read so far.\<close>

fun split_on :: "char \<Rightarrow> string \<Rightarrow> string \<Rightarrow> string list" where
  "split_on sep w [] = [w]"
| "split_on sep w (c # cs) =
     (if c = sep then w # split_on sep [] cs else split_on sep (w @ [c]) cs)"

text \<open>\<open>"/".join(xs)\<close>\<close>

fun join_slash :: "string list \<Rightarrow> string" where
  "join_slash [] = []"
| "join_slash [x] = x"
| "join_slash (x # y # ys) = x @ ''/'' @ join_slash (y # ys)"

text \<open>\<open>s.lower()\<close>, for code points below 256.\<close>

definition lower_char :: "char \<Rightarrow> char" where
  "lower_char c =
     (let n = of_char c :: nat
      in if (65 \<le> n \<and> n \<le> 90) \<or> (192 \<le> n \<and> n \<le> 222 \<and> n \<noteq> 215) then char_of (n + 32) else c)"

text \<open>
  A \<open>pathlib.Path\<close> on a POSIX system, as \<open>pathlib\<close> parses a string: the root is
  \<open>//\<close> for exactly two leading slashes and \<open>/\<close> for any other number of them, and the
  parts are the components between slashes without the empty ones and without \<open>.\<close>;
  a component \<open>..\<close> stays.
\<close>

record path =
  path_root :: string
  path_parts :: "string list"

definition Path :: "string \<Rightarrow> path" where
  "Path s =
     (let slashes = takeWhile (\<lambda>c. c = CHR ''/'') s; rel = dropWhile (\<lambda>c. c = CHR ''/'') s
      in \<lparr>path_root = (if slashes = [] then [] else if length slashes = 2 then ''//'' else ''/''),
          path_parts = filter (\<lambda>x. x \<noteq> [] \<and> x \<noteq> ''.'') (split_on CHR ''/'' [] rel)\<rparr>)"

text \<open>\<open>str(p)\<close>\<close>

definition path_str :: "path \<Rightarrow> string" where
  "path_str p =
     (let s = path_root p @ join_slash (path_parts p) in if s = [] then ''.'' else s)"

text \<open>\<open>p.suffix\<close>: the last component from its last dot on, when that dot is neither its
  first nor its last character.\<close>

definition path_suffix :: "path \<Rightarrow> string" where
  "path_suffix p =
     (let name = (if path_parts p = [] then [] else last (path_parts p));
          ext = rev (takeWhile (\<lambda>c. c \<noteq> CHR ''.'') (rev name))
      in if CHR ''.'' \<in> set name \<and> ext \<noteq> [] \<and> length ext + 1 < length name
         then CHR ''.'' # ext else [])"

text \<open>
  What the file system answers for a path: no entry, a directory, a regular file of some
  size, or an \<open>OSError\<close>.
\<close>

datatype node = Missing | Directory | Regular nat | Unreadable

text \<open>A parsed JSON document; an object holds its members in order, under distinct keys.\<close>

datatype json = JNull | JBool bool | JInt int | JFloat pyfloat | JStr string
  | JArr "json list" | JObj "(string \<times> json) list"

text \<open>The values of a metadata dictionary.\<close>

datatype mvalue = MStr string | MInt int | MKeys "string list" | MJson json

type_synonym metadata = "string \<rightharpoonup> mvalue"

text \<open>
  What \<open>pypdf.PdfReader\<close> gives for a file: the fields of its document information
  (\<open>None\<close> where a field is absent; the two dates already as \<open>str\<close> makes them) and the
  number of pages.
\<close>

record pdf_info =
  title :: "string option"
  author :: "string option"
  subject :: "string option"
  creator :: "string option"
  producer :: "string option"
  creation_date :: "string option"
  modification_date :: "string option"

record pdf =
  pdf_metadata :: "pdf_info option"
  pdf_pages :: nat

text \<open>
  The world outside the program. \<open>read_pdf\<close>, \<open>load_json\<close> and \<open>read_text\<close> are \<open>None\<close>
  where opening, parsing or decoding the file raises. \<open>pdf_text\<close> and \<open>json_text\<close> are
  what \<open>PDFProcessor.extract_text\<close> and \<open>JSONProcessor.extract_text\<close> return (the
  empty string where they fail); the theorems below hold whatever these two return.
  \<open>PDFProcessor.extract_text\<close> raises when \<open>pypdf\<close> is missing, but then the
  processor supports no extension and is never chosen.
\<close>

record env =
  stat :: "string \<Rightarrow> node"
  pypdf :: bool
  read_pdf :: "string \<Rightarrow> pdf option"
  pdf_text :: "string \<Rightarrow> string"
  load_json :: "string \<Rightarrow> json option"
  json_text :: "string \<Rightarrow> string"
  read_text :: "string \<Rightarrow> string option"

datatype processor = PDFProcessor | JSONProcessor

fun supported_extensions :: "env \<Rightarrow> processor \<Rightarrow> string list" where
  "supported_extensions e PDFProcessor = (if pypdf e then [''.pdf''] else [])"
| "supported_extensions e JSONProcessor = [''.json'']"

definition can_process :: "env \<Rightarrow> processor \<Rightarrow> string \<Rightarrow> bool" where
  "can_process e pr file_path \<longleftrightarrow>
     map lower_char (path_suffix (Path file_path)) \<in> set (supported_extensions e pr)"

fun extract_text :: "env \<Rightarrow> processor \<Rightarrow> string \<Rightarrow> string" where
  "extract_text e PDFProcessor file_path = pdf_text e file_path"
| "extract_text e JSONProcessor file_path = json_text e file_path"

text \<open>\<open>PDFProcessor._basic_metadata\<close>\<close>

definition basic_metadata :: metadata where
  "basic_metadata = [''file_extension'' \<mapsto> MStr ''.pdf'', ''processing_method'' \<mapsto> MStr ''basic'',
     ''processor'' \<mapsto> MStr ''PDFProcessor'']"

text \<open>\<open>if v: metadata[k] = v\<close>\<close>

definition set_if_truthy :: "string \<Rightarrow> string option \<Rightarrow> metadata \<Rightarrow> metadata" where
  "set_if_truthy k v m = (case v of None \<Rightarrow> m | Some s \<Rightarrow> if s = [] then m else m(k \<mapsto> MStr s))"

definition pdf_extract_metadata :: "env \<Rightarrow> string \<Rightarrow> metadata" where
  "pdf_extract_metadata e file_path =
     (if \<not> pypdf e then basic_metadata
      else case read_pdf e file_path of
        None \<Rightarrow> basic_metadata
      | Some pdf_reader \<Rightarrow>
          (let metadata = [''file_extension'' \<mapsto> MStr ''.pdf'',
                 ''processing_method'' \<mapsto> MStr ''pypdf'', ''processor'' \<mapsto> MStr ''PDFProcessor''];
               metadata = (case pdf_metadata pdf_reader of
                   None \<Rightarrow> metadata
                 | Some pdf_meta \<Rightarrow>
                     set_if_truthy ''modification_date'' (modification_date pdf_meta)
                      (set_if_truthy ''creation_date'' (creation_date pdf_meta)
                       (set_if_truthy ''producer'' (producer pdf_meta)
                        (set_if_truthy ''creator'' (creator pdf_meta)
                         (set_if_truthy ''subject'' (subject pdf_meta)
                          (set_if_truthy ''author'' (author pdf_meta)
                           (set_if_truthy ''title'' (title pdf_meta) metadata)))))))
           in metadata(''page_count'' \<mapsto> MInt (int (pdf_pages pdf_reader)))))"

text \<open>\<open>if field in data: metadata[field] = data[field]\<close>\<close>

definition copy_field :: "(string \<times> json) list \<Rightarrow> string \<Rightarrow> metadata \<Rightarrow> metadata" where
  "copy_field data field m = (case map_of data field of None \<Rightarrow> m | Some v \<Rightarrow> m(field \<mapsto> MJson v))"

definition json_extract_metadata :: "env \<Rightarrow> string \<Rightarrow> metadata" where
  "json_extract_metadata e file_path =
     (case load_json e file_path of
        None \<Rightarrow> Map.empty
      | Some data \<Rightarrow>
          (let metadata = [''file_extension'' \<mapsto> MStr ''.json'',
                 ''processing_method'' \<mapsto> MStr ''json_parser'', ''processor'' \<mapsto> MStr ''JSONProcessor'']
           in case data of
                JObj members \<Rightarrow>
                  fold (copy_field members)
                    [''title'', ''name'', ''description'', ''summary'', ''version'', ''date'', ''author'']
                    (metadata(''json_keys'' \<mapsto> MKeys (map fst members),
                              ''json_structure'' \<mapsto> MStr ''object''))
              | JArr items \<Rightarrow>
                  metadata(''json_structure'' \<mapsto> MStr ''array'',
                           ''json_array_length'' \<mapsto> MInt (int (length items)))
              | _ \<Rightarrow> metadata))"

fun extract_metadata :: "env \<Rightarrow> processor \<Rightarrow> string \<Rightarrow> metadata" where
  "extract_metadata e PDFProcessor file_path = pdf_extract_metadata e file_path"
| "extract_metadata e JSONProcessor file_path = json_extract_metadata e file_path"

text \<open>\<open>DocumentProcessorManager.get_processor\<close>: the first of the two that can.\<close>

definition get_processor :: "env \<Rightarrow> string \<Rightarrow> processor option" where
  "get_processor e file_path = find (\<lambda>pr. can_process e pr file_path) [PDFProcessor, JSONProcessor]"

text \<open>
  \<open>_is_safe_path\<close>: \<open>exists()\<close> and \<open>is_file()\<close> hold of a regular file only, and an
  \<open>OSError\<close> is caught and gives \<open>False\<close>.
\<close>

definition is_safe_path :: "env \<Rightarrow> path \<Rightarrow> bool" where
  "is_safe_path e file_path =
     (if str_contains ''..'' (path_str file_path) then False
      else case stat e (path_str file_path) of Regular n \<Rightarrow> True | _ \<Rightarrow> False)"

text \<open>
  \<open>process_document\<close> returns its triple; the model returns with it the calls made to
  the extractors and the direct read, in order.
\<close>

datatype call = ExtractText processor string | ExtractMetadata processor string | ReadText string

definition process_document ::
    "env \<Rightarrow> manager \<Rightarrow> string \<Rightarrow> (string \<times> metadata \<times> bool) \<times> call list" where
  "process_document e self file_path_arg =
     (let file_path = Path file_path_arg; p = path_str file_path;
          failure = ([], Map.empty, False)
      in if \<not> is_safe_path e file_path then (failure, [])
         else case stat e p of
           Regular file_size \<Rightarrow>
             if int file_size > max_file_size self then (failure, [])
             else (case get_processor e p of
                 Some processor \<Rightarrow>
                   (let text = extract_text e processor p;
                        metadata = extract_metadata e processor p
                    in (if strip text = [] then failure else (text, metadata, True),
                        [ExtractText processor p, ExtractMetadata processor p]))
               | None \<Rightarrow>
                   (case read_text e p of
                      None \<Rightarrow> (failure, [ReadText p])
                    | Some text \<Rightarrow>
                        (if strip text = [] then failure
                         else (text,
                               [''file_extension'' \<mapsto> MStr (path_suffix file_path),
                                ''processing_method'' \<mapsto> MStr ''direct_file_read'',
                                ''processor'' \<mapsto> MStr ''none''],
                               True),
                         [ReadText p])))
         | _ \<Rightarrow> (failure, []))"

section \<open>The ingestion endpoint\<close>

text \<open>\<open>str(n)\<close> for an integer.\<close>

fun str_nat :: "nat \<Rightarrow> string" where
  "str_nat n = (if n < 10 then [''0123456789'' ! n]
     else str_nat (n div 10) @ [''0123456789'' ! (n mod 10)])"

definition str_int :: "int \<Rightarrow> string" where
  "str_int i = (if i < 0 then ''-'' @ str_nat (nat (- i)) else str_nat (nat i))"

text \<open>
  An uploaded file, with what the world does while it is handled: \<open>filename\<close> is
  \<open>file.filename\<close> as an f-string prints it, \<open>size\<close> is \<open>file.size\<close>; \<open>tmp_path\<close> is the name of the temporary file the upload is copied to, or
  the message of the exception that creating or filling it raises; \<open>insert_error\<close> is the
  message of the exception \<open>client.vector_io.insert\<close> raises for its chunks, if it does.
\<close>

record upload =
  filename :: string
  size :: "nat option"
  tmp_path :: "string + string"
  insert_error :: "string option"

record chunk =
  content :: string
  chunk_metadata :: metadata

text \<open>
  The dictionary \<open>stats\<close>, and with it the batches that \<open>client.vector_io.insert\<close> has
  taken: each the \<open>vector_db_id\<close> and the chunks of one document.
\<close>

record ingest_state =
  processed_files :: nat
  failed_files :: nat
  errors :: "string list"
  inserted :: "(string \<times> chunk list) list"

definition initial_state :: ingest_state where
  "initial_state = \<lparr>processed_files = 0, failed_files = 0, errors = [], inserted = []\<rparr>"

text \<open>\<open>stats["failed_files"] += 1; stats["errors"].append(error_msg)\<close>\<close>

definition record_failure :: "string \<Rightarrow> ingest_state \<Rightarrow> ingest_state" where
  "record_failure error_msg st =
     st\<lparr>failed_files := failed_files st + 1, errors := errors st @ [error_msg]\<rparr>"

text \<open>
  \<open>f"{v}"\<close> for a metadata value: a string as it is, an integer in decimal; how the other
  values print is the parameter \<open>fmt\<close>.
\<close>

definition format_value :: "(mvalue \<Rightarrow> string) \<Rightarrow> mvalue \<Rightarrow> string" where
  "format_value fmt v = (case v of MStr s \<Rightarrow> s | MInt i \<Rightarrow> str_int i | _ \<Rightarrow> fmt v)"

text \<open>The metadata of chunk \<open>i\<close>: the document's, overridden by the five keys of the chunk.\<close>

definition chunk_record ::
    "(mvalue \<Rightarrow> string) \<Rightarrow> metadata \<Rightarrow> string \<Rightarrow> nat \<Rightarrow> nat \<Rightarrow> string \<Rightarrow> chunk" where
  "chunk_record fmt metadata_from_doc_processor file_name total_chunks i c =
     (let document_id = (case metadata_from_doc_processor ''document_id'' of
                           None \<Rightarrow> MStr file_name | Some v \<Rightarrow> v)
      in \<lparr>content = c,
          chunk_metadata = metadata_from_doc_processor
            (''chunk_index'' \<mapsto> MInt (int i),
             ''total_chunks'' \<mapsto> MInt (int total_chunks),
             ''file_name'' \<mapsto> MStr file_name,
             ''document_id'' \<mapsto> document_id,
             ''chunk_id'' \<mapsto> MStr (format_value fmt document_id @ ''_chunk_'' @ str_nat i))\<rparr>)"

text \<open>The test \<open>file.size and file.size > max_size\<close>.\<close>

definition exceeds_max_size :: "manager \<Rightarrow> upload \<Rightarrow> bool" where
  "exceeds_max_size self file \<longleftrightarrow>
     (case size file of None \<Rightarrow> False | Some n \<Rightarrow> n \<noteq> 0 \<and> int n > max_file_size self)"

text \<open>
  The body of the loop \<open>for file in files\<close>. \<open>MAX_DOCUMENT_SIZE\<close> and \<open>CHUNK_SIZE\<close> are
  read from the environment as the constructor of the manager read them, so they are
  \<open>max_file_size self\<close> and \<open>chunk_size self\<close>.
\<close>

definition ingest_file ::
    "env \<Rightarrow> (mvalue \<Rightarrow> string) \<Rightarrow> manager \<Rightarrow> string \<Rightarrow> upload \<Rightarrow> ingest_state \<Rightarrow> ingest_state" where
  "ingest_file e fmt self vector_db_id file st =
     (let max_size = max_file_size self
      in if exceeds_max_size self file
         then record_failure (''File '' @ filename file @ '' exceeds maximum size (''
                @ str_int max_size @ '' bytes)'') st
         else case tmp_path file of
           Inl file_error \<Rightarrow>
             record_failure (''File handling error for '' @ filename file @ '': '' @ file_error) st
         | Inr tmp_file_path \<Rightarrow>
             (case fst (process_document e self tmp_file_path) of
                (text, metadata_from_doc_processor, success) \<Rightarrow>
                  if success \<and> strip text \<noteq> [] then
                    (let chunks = chunk_text self text (Some (chunk_size self));
                         batch_chunks = map (\<lambda>(i, c). chunk_record fmt metadata_from_doc_processor
                                              (filename file) (length chunks) i c)
                                            (enumerate 0 chunks)
                     in case insert_error file of
                          Some proc_error \<Rightarrow>
                            record_failure (''Processing error for '' @ filename file @ '': ''
                              @ proc_error) st
                        | None \<Rightarrow>
                            st\<lparr>inserted := inserted st @ [(vector_db_id, batch_chunks)],
                               processed_files := processed_files st + 1\<rparr>)
                  else record_failure (''Failed to extract text from '' @ filename file) st))"

text \<open>The loop over the uploaded files.\<close>

definition ingest_loop ::
    "env \<Rightarrow> (mvalue \<Rightarrow> string) \<Rightarrow> manager \<Rightarrow> string \<Rightarrow> upload list \<Rightarrow> ingest_state \<Rightarrow> ingest_state" where
  "ingest_loop e fmt self vector_db_id files st = fold (ingest_file e fmt self vector_db_id) files st"

text \<open>The response built from the statistics.\<close>

record ingest_response =
  success :: bool
  message :: string
  response_processed_files :: nat
  response_failed_files :: nat
  response_errors :: "string list"

definition ingest_documents ::
    "env \<Rightarrow> (mvalue \<Rightarrow> string) \<Rightarrow> manager \<Rightarrow> string \<Rightarrow> upload list \<Rightarrow> ingest_response" where
  "ingest_documents e fmt self vector_db_id files =
     (let stats = ingest_loop e fmt self vector_db_id files initial_state;
          total_files = length files
      in \<lparr>success = (processed_files stats > 0),
          message =
            (if processed_files stats = total_files
             then ''Successfully ingested '' @ str_nat (processed_files stats) @ '' documents''
             else if processed_files stats > 0
             then ''Partially successful: '' @ str_nat (processed_files stats) @ ''/''
                    @ str_nat total_files @ '' documents ingested''
             else ''Failed to ingest any documents. '' @ str_nat (failed_files stats)
                    @ '' files failed''),
          response_processed_files = processed_files stats,
          response_failed_files = failed_files stats,
          response_errors = errors stats\<rparr>)"

section \<open>Auxiliary notions for the proofs\<close>

text \<open>
  None of the following is part of the program. \<open>trimmed\<close>, \<open>spaced\<close> and \<open>norm\<close>
  describe whitespace-normalised strings, \<open>nows\<close> and \<open>wordlike\<close> the words that
  \<open>split_ws\<close> returns, and \<open>good\<close> the buffers of the first loop. \<open>pack\<close>,
  \<open>resplit\<close> and \<open>buffers\<close> are the loops of \<open>chunk_text\<close> without their
  accumulators; the lemmas \<open>word_loop_pack\<close>, \<open>chunk_loop_resplit\<close> and
  \<open>sentence_loop_buffers\<close> relate them to the loops.
\<close>

definition trimmed :: "string \<Rightarrow> bool" where
  "trimmed s \<longleftrightarrow> s \<noteq> [] \<and> \<not> isspace (hd s) \<and> \<not> isspace (last s)"

fun spaced :: "string \<Rightarrow> bool" where
  "spaced [] = True"
| "spaced [c] = (isspace c \<longrightarrow> c = CHR '' '')"
| "spaced (c # d # cs) = ((isspace c \<longrightarrow> c = CHR '' '' \<and> \<not> isspace d) \<and> spaced (d # cs))"

definition nows :: "string \<Rightarrow> bool" where
  "nows s \<longleftrightarrow> (\<forall>c\<in>set s. \<not> isspace c)"

definition norm :: "string \<Rightarrow> bool" where
  "norm s \<longleftrightarrow> trimmed s \<and> spaced s"

definition opt :: "string \<Rightarrow> string list" where
  "opt s = (if s = [] then [] else [s])"

fun pack :: "int \<Rightarrow> string \<Rightarrow> string list \<Rightarrow> string list" where
  "pack csz cur [] = opt cur"
| "pack csz cur (w # ws) =
     (if int (length cur) + int (length w) + 1 \<le> csz
      then pack csz (if cur \<noteq> [] then cur @ '' '' @ w else w) ws
      else opt cur @ pack csz w ws)"

definition resplit :: "int \<Rightarrow> string \<Rightarrow> string list" where
  "resplit csz c = (if int (length c) \<le> csz then [c] else pack csz [] (split_ws [] c))"

fun buffers :: "int \<Rightarrow> int \<Rightarrow> string \<Rightarrow> string list \<Rightarrow> string list" where
  "buffers csz ov cur [] = [cur]"
| "buffers csz ov cur (s # ss) =
     (if int (length cur) + int (length s) > csz \<and> cur \<noteq> []
      then cur # buffers csz ov
             (if ov > 0 \<and> int (length cur) > ov
              then drop (length cur - nat ov) cur @ '' '' @ s else s) ss
      else buffers csz ov (if cur \<noteq> [] then cur @ '' '' @ s else s) ss)"

definition wordlike :: "string \<Rightarrow> bool" where
  "wordlike x \<longleftrightarrow> x \<noteq> [] \<and> nows x"

definition good :: "string \<Rightarrow> bool" where
  "good b \<longleftrightarrow> b \<noteq> [] \<and> \<not> isspace (last b) \<and> spaced b"

text \<open>The summed lengths of some strings, counting one more for each.\<close>

definition wt :: "string list \<Rightarrow> nat" where
  "wt xs = sum_list (map (\<lambda>x. Suc (length x)) xs)"

text \<open>For the ingestion loop: one file handled on its own, from the initial statistics.\<close>

definition ingest_alone ::
    "env \<Rightarrow> (mvalue \<Rightarrow> string) \<Rightarrow> manager \<Rightarrow> string \<Rightarrow> upload \<Rightarrow> ingest_state" where
  "ingest_alone e fmt self vector_db_id file = ingest_file e fmt self vector_db_id file initial_state"

text \<open>For the path check: some two neighbours of the string are both dots.\<close>

fun has_dotdot :: "string \<Rightarrow> bool" where
  "has_dotdot [] = False"
| "has_dotdot [c] = False"
| "has_dotdot (a # b # cs) = ((a = CHR ''.'' \<and> b = CHR ''.'') \<or> has_dotdot (b # cs))"

section \<open>Lemmas about the chunker\<close>

lemma isspace_space [simp]: "isspace CHR '' ''"
  by (simp add: isspace_def)

lemma sentence_end_not_space: "sentence_end c \<Longrightarrow> \<not> isspace c"
  by (auto simp: sentence_end_def isspace_def)

lemma rstrip_Nil [simp]: "rstrip [] = []"
  by (simp add: rstrip_def)

lemma rstrip_Cons:
  "rstrip (c # cs) = (if rstrip cs = [] \<and> isspace c then [] else c # rstrip cs)"
  by (auto simp: rstrip_def dropWhile_append)

lemma rstrip_snoc: "rstrip (s @ [c]) = (if isspace c then rstrip s else s @ [c])"
  by (simp add: rstrip_def)

lemma rstrip_id: "s = [] \<or> \<not> isspace (last s) \<Longrightarrow> rstrip s = s"
  by (cases s rule: rev_cases) (auto simp: rstrip_snoc)

lemma rstrip_last: "rstrip s \<noteq> [] \<Longrightarrow> \<not> isspace (last (rstrip s))"
  by (induction s rule: rev_induct) (auto simp: rstrip_snoc)

lemma rstrip_hd: "rstrip s \<noteq> [] \<Longrightarrow> hd (rstrip s) = hd s"
  by (cases s) (auto simp: rstrip_Cons split: if_splits)

lemma lstrip_hd: "lstrip s \<noteq> [] \<Longrightarrow> \<not> isspace (hd (lstrip s))"
  unfolding lstrip_def by (metis hd_dropWhile)

lemma strip_trimmed: "strip s \<noteq> [] \<Longrightarrow> trimmed (strip s)"
  unfolding strip_def trimmed_def
  by (metis rstrip_Nil rstrip_hd rstrip_last lstrip_hd)

lemma lstrip_id: "s = [] \<or> \<not> isspace (hd s) \<Longrightarrow> lstrip s = s"
  by (cases s) (auto simp: lstrip_def)

lemma strip_id: "trimmed s \<Longrightarrow> strip s = s"
  by (simp add: strip_def trimmed_def lstrip_id rstrip_id)

lemma strip_Nil [simp]: "strip [] = []"
  by (simp add: strip_def lstrip_def)

lemma spaced_append:
  "spaced (xs @ ys) \<longleftrightarrow> spaced xs \<and> spaced ys \<and>
     (xs \<noteq> [] \<and> ys \<noteq> [] \<longrightarrow> \<not> (isspace (last xs) \<and> isspace (hd ys)))"
proof (induction xs rule: spaced.induct)
  case 1
  then show ?case by simp
next
  case (2 c)
  then show ?case by (cases ys) auto
next
  case (3 c d cs)
  then show ?case by auto
qed

lemma spaced_Cons: "spaced (c # cs) \<Longrightarrow> spaced cs"
  by (cases cs) auto

lemma spaced_drop: "spaced s \<Longrightarrow> spaced (drop n s)"
  by (metis append_take_drop_id spaced_append)

lemma spaced_dropWhile: "spaced s \<Longrightarrow> spaced (dropWhile P s)"
  by (metis takeWhile_dropWhile_id spaced_append)

lemma spaced_rstrip: "spaced s \<Longrightarrow> spaced (rstrip s)"
  by (induction s rule: rev_induct) (auto simp: rstrip_snoc spaced_append)

lemma spaced_strip: "spaced s \<Longrightarrow> spaced (strip s)"
  by (simp add: strip_def lstrip_def spaced_rstrip spaced_dropWhile)

lemma join_sp_Cons: "join_sp (x # xs) = (if xs = [] then x else x @ '' '' @ join_sp xs)"
  by (cases xs) auto

lemma join_sp_append:
  "join_sp (xs @ ys) =
     (if xs = [] then join_sp ys else if ys = [] then join_sp xs
      else join_sp xs @ '' '' @ join_sp ys)"
  by (induction xs rule: join_sp.induct) (auto simp: join_sp_Cons)

subsection \<open>Whitespace normalisation\<close>

lemma re_sub_ws_True_hd:
  "re_sub_ws True s = [] \<or> \<not> isspace (hd (re_sub_ws True s))"
  by (induction s) auto

lemma re_sub_ws_spaced: "spaced (re_sub_ws inrun s)"
proof (induction s arbitrary: inrun)
  case Nil
  then show ?case by simp
next
  case (Cons c cs)
  have a: "spaced (CHR '' '' # re_sub_ws True cs)"
    using Cons [of True] re_sub_ws_True_hd [of cs]
    by (cases "re_sub_ws True cs") auto
  have b: "\<not> isspace c \<Longrightarrow> spaced (c # re_sub_ws False cs)"
    using Cons [of False] by (cases "re_sub_ws False cs") auto
  show ?case using a b Cons by auto
qed

lemma re_sub_ws_False_hd:
  "s \<noteq> [] \<Longrightarrow> \<not> isspace (hd s) \<Longrightarrow> re_sub_ws False s \<noteq> [] \<and> \<not> isspace (hd (re_sub_ws False s))"
  by (cases s) auto

lemma re_sub_ws_last:
  "s \<noteq> [] \<Longrightarrow> \<not> isspace (last s) \<Longrightarrow> re_sub_ws inrun s \<noteq> [] \<and> \<not> isspace (last (re_sub_ws inrun s))"
  by (induction s arbitrary: inrun) (auto split: if_splits)

lemma re_sub_ws_norm:
  "trimmed s \<Longrightarrow> trimmed (re_sub_ws False s) \<and> spaced (re_sub_ws False s)"
  by (simp add: trimmed_def re_sub_ws_spaced re_sub_ws_False_hd re_sub_ws_last)

lemma re_sub_ws_length: "length (re_sub_ws inrun s) \<le> length s"
  by (induction s arbitrary: inrun) (auto simp: le_SucI)


subsection \<open>Splitting into words\<close>

lemma split_ws_nonempty: "w \<noteq> [] \<Longrightarrow> split_ws w cs \<noteq> []"
  by (induction cs arbitrary: w) auto

lemma split_ws_nonempty': "cs \<noteq> [] \<Longrightarrow> \<not> isspace (hd cs) \<Longrightarrow> split_ws w cs \<noteq> []"
  by (cases cs) (auto simp: split_ws_nonempty)

lemma nows_Nil [simp]: "nows []"
  by (simp add: nows_def)

lemma nows_snoc [simp]: "nows (w @ [c]) \<longleftrightarrow> nows w \<and> \<not> isspace c"
  by (auto simp: nows_def)

lemma split_ws_words:
  "nows w \<Longrightarrow> list_all (\<lambda>x. x \<noteq> [] \<and> nows x) (split_ws w cs)"
  by (induction cs arbitrary: w) simp_all

lemma join_split_ws:
  "spaced cs \<Longrightarrow> cs = [] \<or> \<not> isspace (last cs) \<Longrightarrow> w = [] \<longrightarrow> cs = [] \<or> \<not> isspace (hd cs)
   \<Longrightarrow> join_sp (split_ws w cs) = w @ cs"
proof (induction cs arbitrary: w)
  case Nil
  then show ?case by simp
next
  case (Cons c cs)
  have sp: "spaced cs" using Cons.prems(1) by (rule spaced_Cons)
  have la: "cs = [] \<or> \<not> isspace (last cs)" using Cons.prems(2) by (cases cs) auto
  show ?case
  proof (cases "isspace c")
    case True
    have w: "w \<noteq> []" using Cons.prems(3) True by auto
    have cs: "cs \<noteq> []" using Cons.prems(2) True by auto
    then obtain d ds where d: "cs = d # ds" by (cases cs) auto
    have c: "c = CHR '' ''" and h: "\<not> isspace (hd cs)"
      using Cons.prems(1) True d by auto
    have "join_sp (split_ws [] cs) = [] @ cs"
      using sp la h by (intro Cons.IH) auto
    then show ?thesis using True w c cs h
      by (simp add: join_sp_Cons split_ws_nonempty')
  next
    case False
    have "join_sp (split_ws (w @ [c]) cs) = (w @ [c]) @ cs"
      using sp la by (intro Cons.IH) auto
    then show ?thesis using False by simp
  qed
qed

lemma join_split_ws_norm: "trimmed s \<Longrightarrow> spaced s \<Longrightarrow> join_sp (split_ws [] s) = s"
  using join_split_ws [of s "[]"] by (simp add: trimmed_def)

lemma opt_simps [simp]: "opt [] = []" "s \<noteq> [] \<Longrightarrow> opt s = [s]"
  by (simp_all add: opt_def)

lemma word_loop_pack:
  "(case word_loop csz fin cur ws of (f, c) \<Rightarrow> f @ opt c) = fin @ pack csz cur ws"
  by (induction ws arbitrary: fin cur) (simp_all add: opt_def)

lemma chunk_loop_resplit:
  "chunk_loop csz fin chunks = fin @ concat (map (resplit csz) chunks)"
proof (induction chunks arbitrary: fin)
  case Nil
  then show ?case by simp
next
  case (Cons c chunks)
  obtain f cur where wl: "word_loop csz fin [] (split_ws [] c) = (f, cur)"
    by (cases "word_loop csz fin [] (split_ws [] c)")
  have "f @ opt cur = fin @ pack csz [] (split_ws [] c)"
    using word_loop_pack [of csz fin "[]" "split_ws [] c"] wl by simp
  then show ?case using wl Cons.IH
    by (simp add: resplit_def opt_def split: if_splits)
qed

lemma buffers_nonempty [simp]: "buffers csz ov cur ss \<noteq> []"
  by (induction ss arbitrary: cur) auto

lemma sentence_loop_buffers:
  "sentence_loop csz ov chunks cur ss =
     (chunks @ map strip (butlast (buffers csz ov cur ss)), last (buffers csz ov cur ss))"
  by (induction ss arbitrary: chunks cur) simp_all

lemma sentence_chunks_buffers:
  "sentence_chunks csz ov text =
     (let bs = buffers csz ov [] (re_split_sentences False [] text)
      in map strip (butlast bs) @ opt (strip (last bs)))"
  by (simp add: sentence_chunks_def sentence_loop_buffers opt_def Let_def)

lemma wordlike_trimmed: "wordlike x \<Longrightarrow> trimmed x"
  by (cases x) (auto simp: wordlike_def nows_def trimmed_def)

lemma wordlike_nonempty: "wordlike x \<Longrightarrow> x \<noteq> []"
  by (simp add: wordlike_def)

lemma split_ws_wordlike: "list_all wordlike (split_ws [] c)"
  using split_ws_words [of "[]" c] by (simp add: wordlike_def [abs_def])

lemma trimmed_join2: "trimmed a \<Longrightarrow> trimmed b \<Longrightarrow> trimmed (a @ CHR '' '' # b)"
  by (cases a) (auto simp: trimmed_def)

subsection \<open>The packed sub-chunks\<close>

lemma pack_bound:
  "list_all (\<lambda>x. int (length x) \<le> csz \<or> x \<in> set ws \<or> x = cur) (pack csz cur ws)"
proof (induction ws arbitrary: cur)
  case Nil
  then show ?case by (simp add: opt_def)
next
  case (Cons w ws)
  show ?case
  proof (cases "int (length cur) + int (length w) + 1 \<le> csz")
    case True
    let ?c = "if cur \<noteq> [] then cur @ '' '' @ w else w"
    have c: "int (length ?c) \<le> csz \<or> ?c = w" using True by auto
    have "list_all (\<lambda>x. int (length x) \<le> csz \<or> x \<in> set ws \<or> x = ?c) (pack csz ?c ws)"
      by (rule Cons.IH)
    then have "list_all (\<lambda>x. int (length x) \<le> csz \<or> x \<in> set (w # ws) \<or> x = cur) (pack csz ?c ws)"
      using c by (auto simp: list_all_iff)
    then show ?thesis using True by simp
  next
    case False
    have "list_all (\<lambda>x. int (length x) \<le> csz \<or> x \<in> set ws \<or> x = w) (pack csz w ws)"
      by (rule Cons.IH)
    then have "list_all (\<lambda>x. int (length x) \<le> csz \<or> x \<in> set (w # ws) \<or> x = cur) (pack csz w ws)"
      by (auto simp: list_all_iff)
    then show ?thesis using False by (simp add: opt_def)
  qed
qed

lemma pack_trimmed:
  "list_all wordlike ws \<Longrightarrow> cur = [] \<or> trimmed cur \<Longrightarrow> list_all trimmed (pack csz cur ws)"
proof (induction ws arbitrary: cur)
  case Nil
  then show ?case by (auto simp: opt_def)
next
  case (Cons w ws)
  have w: "trimmed w" and ws: "list_all wordlike ws"
    using Cons.prems(1) by (simp_all add: wordlike_trimmed)
  have 1: "list_all trimmed (pack csz w ws)"
    using ws w by (intro Cons.IH) simp_all
  have 2: "cur \<noteq> [] \<Longrightarrow> list_all trimmed (pack csz (cur @ '' '' @ w) ws)"
    using ws w Cons.prems(2) by (intro Cons.IH) (simp_all add: trimmed_join2)
  show ?case using 1 2 Cons.prems(2) by (auto simp: opt_def)
qed

lemma pack_nonempty_cur: "cur \<noteq> [] \<Longrightarrow> pack csz cur ws \<noteq> []"
  by (induction ws arbitrary: cur) (auto simp: opt_def)

lemma pack_join:
  "list_all (\<lambda>w. w \<noteq> []) ws \<Longrightarrow> join_sp (pack csz cur ws) = join_sp (opt cur @ ws)"
proof (induction ws arbitrary: cur)
  case Nil
  then show ?case by simp
next
  case (Cons w ws)
  have w: "w \<noteq> []" and ws: "list_all (\<lambda>w. w \<noteq> []) ws" using Cons.prems by simp_all
  have 1: "join_sp (pack csz w ws) = join_sp (w # ws)"
    using Cons.IH [OF ws, of w] w by simp
  have 2: "join_sp (pack csz (cur @ '' '' @ w) ws) = join_sp ((cur @ '' '' @ w) # ws)"
    using Cons.IH [OF ws, of "cur @ '' '' @ w"] by simp
  have ne: "pack csz w ws \<noteq> []" using w by (rule pack_nonempty_cur)
  show ?case
  proof (cases "cur = []")
    case True
    then show ?thesis using 1 by simp
  next
    case False
    then show ?thesis using 1 2 ne by (simp add: join_sp_Cons)
  qed
qed

lemma pack_nonempty: "ws \<noteq> [] \<Longrightarrow> list_all (\<lambda>w. w \<noteq> []) ws \<Longrightarrow> pack csz cur ws \<noteq> []"
  by (cases ws) (auto simp: opt_def pack_nonempty_cur)

lemma re_split_nonempty [simp]: "re_split_sentences sk cur cs \<noteq> []"
  by (induction cs arbitrary: sk cur) auto

lemma re_split_norm:
  "spaced (cur @ cs) \<Longrightarrow> cur @ cs \<noteq> [] \<Longrightarrow> \<not> isspace (last (cur @ cs)) \<Longrightarrow>
   \<not> isspace (hd (cur @ cs)) \<Longrightarrow> (sk \<longrightarrow> cur = []) \<Longrightarrow>
   list_all norm (re_split_sentences sk cur cs) \<and> join_sp (re_split_sentences sk cur cs) = cur @ cs"
proof (induction cs arbitrary: cur sk)
  case Nil
  then show ?case by (simp add: norm_def trimmed_def)
next
  case (Cons c cs)
  have step: "list_all norm (re_split_sentences False (cur @ [c]) cs) \<and>
      join_sp (re_split_sentences False (cur @ [c]) cs) = (cur @ [c]) @ cs"
    using Cons.prems by (intro Cons.IH) simp_all
  show ?case
  proof (cases "isspace c")
    case False
    then show ?thesis using step by simp
  next
    case True
    have cur: "cur \<noteq> []" using Cons.prems(4) True by (cases cur) auto
    then have sk: "\<not> sk" using Cons.prems(5) by simp
    have hd: "\<not> isspace (hd cur)" using Cons.prems(4) cur by simp
    have cs: "cs \<noteq> []" using Cons.prems(3) True by auto
    have sp: "spaced cur" "spaced (c # cs)"
      using Cons.prems(1) by (simp_all add: spaced_append)
    obtain d ds where d: "cs = d # ds" using cs by (cases cs) auto
    have c: "c = CHR '' ''" and hcs: "\<not> isspace (hd cs)" and spcs: "spaced cs"
      using sp(2) True d by auto
    show ?thesis
    proof (cases "sentence_end (last cur)")
      case False
      then show ?thesis using step True sk by simp
    next
      case se: True
      have n: "norm cur"
        using cur hd sp(1) sentence_end_not_space [OF se] by (simp add: norm_def trimmed_def)
      have "list_all norm (re_split_sentences True [] cs) \<and>
          join_sp (re_split_sentences True [] cs) = [] @ cs"
        using spcs cs hcs Cons.prems(3) by (intro Cons.IH) simp_all
      then show ?thesis using n se True sk cur c
        by (simp add: join_sp_Cons)
    qed
  qed
qed

lemma sentences_norm:
  assumes "norm t"
  shows "list_all norm (re_split_sentences False [] t)"
    and "join_sp (re_split_sentences False [] t) = t"
  using re_split_norm [of "[]" t False] assms by (simp_all add: norm_def trimmed_def)

subsection \<open>The buffers of the first loop\<close>

lemma norm_good: "norm s \<Longrightarrow> good s"
  by (simp add: norm_def trimmed_def good_def)

lemma good_join: "good a \<Longrightarrow> norm s \<Longrightarrow> good (a @ CHR '' '' # s)"
  by (cases s) (auto simp: good_def norm_def trimmed_def spaced_append)

lemma good_drop: "good a \<Longrightarrow> n < length a \<Longrightarrow> good (drop n a)"
  by (simp add: good_def spaced_drop)

lemma buffers_good:
  "list_all norm ss \<Longrightarrow> cur = [] \<or> good cur \<Longrightarrow> cur \<noteq> [] \<or> ss \<noteq> [] \<Longrightarrow>
   list_all good (buffers csz ov cur ss)"
proof (induction ss arbitrary: cur)
  case Nil
  then show ?case by simp
next
  case (Cons s ss)
  have s: "norm s" and ss: "list_all norm ss" using Cons.prems(1) by simp_all
  have gs: "good s" using s by (rule norm_good)
  have 1: "list_all good (buffers csz ov s ss)"
    using ss gs by (intro Cons.IH) (simp_all add: good_def)
  have 2: "cur \<noteq> [] \<Longrightarrow> list_all good (buffers csz ov (cur @ '' '' @ s) ss)"
    using ss s Cons.prems(2) by (intro Cons.IH) (simp_all add: good_join)
  have 3: "cur \<noteq> [] \<Longrightarrow> 0 < ov \<Longrightarrow> ov < int (length cur) \<Longrightarrow>
      list_all good (buffers csz ov (drop (length cur - nat ov) cur @ '' '' @ s) ss)"
    using ss s Cons.prems(2) by (intro Cons.IH) (simp_all add: good_join good_drop)
  show ?case using 1 2 3 Cons.prems(2) by auto
qed

lemma good_strip: "good b \<Longrightarrow> norm (strip b) \<and> strip b = lstrip b"
proof -
  assume g: "good b"
  have "\<not> (\<forall>x\<in>set b. isspace x)" using g by (auto simp: good_def)
  then have ne: "lstrip b \<noteq> []" by (simp add: lstrip_def)
  have "last (lstrip b) = last b"
    using ne unfolding lstrip_def by (metis last_appendR takeWhile_dropWhile_id)
  then have eq: "strip b = lstrip b" using g ne by (simp add: strip_def rstrip_id good_def)
  have "spaced (strip b)" using g by (simp add: spaced_strip good_def)
  then show ?thesis using eq ne strip_trimmed [of b] by (simp add: norm_def)
qed

lemma norm_join2: "norm a \<Longrightarrow> norm s \<Longrightarrow> norm (a @ CHR '' '' # s)"
  by (cases s) (auto simp: norm_def trimmed_join2 spaced_append trimmed_def)

lemma norm_strip_id: "norm s \<Longrightarrow> strip s = s"
  by (simp add: norm_def strip_id)

lemma norm_nonempty: "norm s \<Longrightarrow> s \<noteq> []"
  by (simp add: norm_def trimmed_def)

lemma buffers_norm0:
  "list_all norm ss \<Longrightarrow> cur = [] \<or> norm cur \<Longrightarrow> cur \<noteq> [] \<or> ss \<noteq> [] \<Longrightarrow> ov \<le> 0 \<Longrightarrow>
   list_all norm (buffers csz ov cur ss)"
proof (induction ss arbitrary: cur)
  case Nil
  then show ?case by simp
next
  case (Cons s ss)
  have s: "norm s" and ss: "list_all norm ss" using Cons.prems(1) by simp_all
  have 1: "list_all norm (buffers csz ov s ss)"
    using ss s Cons.prems(4) by (intro Cons.IH) (simp_all add: norm_nonempty)
  have 2: "cur \<noteq> [] \<Longrightarrow> list_all norm (buffers csz ov (cur @ '' '' @ s) ss)"
    using ss s Cons.prems(2,4) by (intro Cons.IH) (simp_all add: norm_join2)
  show ?case using 1 2 Cons.prems(2,4) by auto
qed

lemma buffers_join0:
  "list_all norm ss \<Longrightarrow> ov \<le> 0 \<Longrightarrow>
   join_sp (buffers csz ov cur ss) = join_sp (opt cur @ ss)"
proof (induction ss arbitrary: cur)
  case Nil
  then show ?case by (simp add: opt_def)
next
  case (Cons s ss)
  have s: "s \<noteq> []" and ss: "list_all norm ss" using Cons.prems(1) by (simp_all add: norm_nonempty)
  have 1: "join_sp (buffers csz ov s ss) = join_sp (s # ss)"
    using Cons.IH [OF ss Cons.prems(2), of s] s by simp
  have 2: "join_sp (buffers csz ov (cur @ '' '' @ s) ss) = join_sp ((cur @ '' '' @ s) # ss)"
    using Cons.IH [OF ss Cons.prems(2), of "cur @ '' '' @ s"] by simp
  show ?case
  proof (cases "cur = []")
    case True
    then show ?thesis using 1 by simp
  next
    case False
    then show ?thesis using 1 2 Cons.prems(2) by (simp add: join_sp_Cons)
  qed
qed

lemma resplit_norm:
  assumes "norm c"
  shows "resplit csz c \<noteq> []" and "join_sp (resplit csz c) = c"
    and "list_all trimmed (resplit csz c)"
proof -
  let ?ws = "split_ws [] c"
  have wl: "list_all wordlike ?ws" by (rule split_ws_wordlike)
  then have ne: "list_all (\<lambda>w. w \<noteq> []) ?ws"
    by (simp add: list_all_iff wordlike_def)
  have j: "join_sp ?ws = c" using assms by (simp add: norm_def join_split_ws_norm)
  have wsne: "?ws \<noteq> []" using j assms by (auto simp: norm_def trimmed_def)
  show "resplit csz c \<noteq> []"
    using pack_nonempty [OF wsne ne] by (simp add: resplit_def)
  show "join_sp (resplit csz c) = c"
    using pack_join [OF ne, of csz "[]"] j by (simp add: resplit_def)
  show "list_all trimmed (resplit csz c)"
    using pack_trimmed [OF wl, of "[]" csz] assms by (simp add: resplit_def norm_def)
qed

lemma concat_resplit_join:
  "list_all norm cs \<Longrightarrow> join_sp (concat (map (resplit csz) cs)) = join_sp cs"
proof (induction cs)
  case Nil
  then show ?case by simp
next
  case (Cons c cs)
  have c: "norm c" and cs: "list_all norm cs" using Cons.prems by simp_all
  have ih: "join_sp (concat (map (resplit csz) cs)) = join_sp cs" using cs by (rule Cons.IH)
  have e: "concat (map (resplit csz) cs) = [] \<longleftrightarrow> cs = []"
    using cs by (cases cs) (auto simp: resplit_norm(1))
  show ?case using resplit_norm(1,2) [OF c, of csz] ih e
    by (simp add: join_sp_append join_sp_Cons)
qed

lemma concat_resplit_trimmed:
  "list_all norm cs \<Longrightarrow> list_all trimmed (concat (map (resplit csz) cs))"
  by (induction cs) (simp_all add: resplit_norm(3))

lemma sentence_chunks_norm:
  assumes "norm t"
  shows "list_all norm (sentence_chunks csz ov t)"
    and "sentence_chunks csz ov t = map strip (buffers csz ov [] (re_split_sentences False [] t))"
proof -
  let ?bs = "buffers csz ov [] (re_split_sentences False [] t)"
  have g: "list_all good ?bs"
    using sentences_norm(1) [OF assms] by (intro buffers_good) simp_all
  have n: "list_all norm (map strip ?bs)"
    using g by (auto simp: list_all_iff dest: good_strip)
  have "?bs = butlast ?bs @ [last ?bs]" by simp
  then have "map strip ?bs = map strip (butlast ?bs) @ [strip (last ?bs)]"
    by (metis list.simps(8,9) map_append)
  moreover have "strip (last ?bs) \<noteq> []"
    using n by (simp add: list_all_iff norm_nonempty)
  ultimately show "sentence_chunks csz ov t = map strip ?bs"
    by (simp add: sentence_chunks_buffers Let_def)
  then show "list_all norm (sentence_chunks csz ov t)" using n by simp
qed

lemma normalised_norm: "strip t \<noteq> [] \<Longrightarrow> norm (re_sub_ws False (strip t))"
  using re_sub_ws_norm [OF strip_trimmed] by (simp add: norm_def)

lemma sentence_chunks_join0:
  assumes "norm t" "ov \<le> 0"
  shows "join_sp (sentence_chunks csz ov t) = t"
proof -
  let ?ss = "re_split_sentences False [] t"
  let ?bs = "buffers csz ov [] ?ss"
  have ss: "list_all norm ?ss" by (rule sentences_norm(1) [OF assms(1)])
  have "list_all norm ?bs" using ss assms(2) by (intro buffers_norm0) simp_all
  then have "map strip ?bs = ?bs"
    by (simp add: list_all_iff norm_strip_id map_idI)
  then show ?thesis
    using sentence_chunks_norm(2) [OF assms(1), of csz ov] buffers_join0 [OF ss assms(2), of csz "[]"]
      sentences_norm(2) [OF assms(1)] by simp
qed

lemma resplit_bound:
  assumes "c \<in> set (resplit csz ch)"
  shows "int (length c) \<le> csz \<or> c \<in> set (split_ws [] ch)"
proof (cases "int (length ch) \<le> csz")
  case True
  then show ?thesis using assms by (simp add: resplit_def)
next
  case False
  then have c: "c \<in> set (pack csz [] (split_ws [] ch))" using assms by (simp add: resplit_def)
  have "list_all trimmed (pack csz [] (split_ws [] ch))"
    using split_ws_wordlike by (intro pack_trimmed) simp_all
  then have "c \<noteq> []" using c by (auto simp: list_all_iff trimmed_def)
  then show ?thesis using pack_bound [of csz "split_ws [] ch" "[]"] c
    by (auto simp: list_all_iff)
qed

lemma split_ws_nows: "c \<in> set (split_ws [] ch) \<Longrightarrow> \<forall>x\<in>set c. \<not> isspace x"
  using split_ws_wordlike [of ch] by (auto simp: list_all_iff wordlike_def nows_def)

text \<open>
  Claim C1. Every chunk that \<open>chunk_text\<close> returns is at most \<open>chunk_size\<close> characters
  long, or it is a single word without whitespace, emitted whole: a word of one of the
  chunks of the first loop. This holds for every \<open>chunk_size\<close> and every overlap; the
  claim asks for it when \<open>chunk_size > 0\<close>.
\<close>

theorem chunk_text_size_bound:
  assumes "c \<in> set (chunk_text self text arg)"
  shows "int (length c) \<le> (case arg of None \<Rightarrow> chunk_size self | Some n \<Rightarrow> n) \<or>
         ((\<forall>x\<in>set c. \<not> isspace x) \<and>
          (\<exists>ch\<in>set (sentence_chunks (case arg of None \<Rightarrow> chunk_size self | Some n \<Rightarrow> n)
                 (chunk_overlap self) (re_sub_ws False (strip text))).
             c \<in> set (split_ws [] ch)))"
proof -
  let ?csz = "case arg of None \<Rightarrow> chunk_size self | Some n \<Rightarrow> n"
  let ?t = "re_sub_ws False (strip text)"
  show ?thesis
  proof (cases "int (length ?t) \<le> ?csz")
    case True
    then show ?thesis using assms by (auto simp: chunk_text_def Let_def split: if_splits)
  next
    case False
    then have "c \<in> set (concat (map (resplit ?csz) (sentence_chunks ?csz (chunk_overlap self) ?t)))"
      using assms by (auto simp: chunk_text_def Let_def chunk_loop_resplit split: if_splits)
    then obtain ch where ch: "ch \<in> set (sentence_chunks ?csz (chunk_overlap self) ?t)"
      and c: "c \<in> set (resplit ?csz ch)" by auto
    show ?thesis using resplit_bound [OF c] ch split_ws_nows [of c ch] by blast
  qed
qed

theorem chunk_text_size_bound_witness:
  "''bbbbbbbbbbbb'' \<in> set (chunk_text \<lparr>chunk_size = 1000, chunk_overlap = 3, max_file_size = 100\<rparr>
        ''aa.  bbbbbbbbbbbb cc'' (Some 5)) \<and>
   \<not> int (length ''bbbbbbbbbbbb'') \<le> 5 \<and>
   list_all (\<lambda>x. \<not> isspace x) ''bbbbbbbbbbbb''"
proof -
  have h: "''bbbbbbbbbbbb'' \<in> set (chunk_text \<lparr>chunk_size = 1000, chunk_overlap = 3, max_file_size = 100\<rparr>
        ''aa.  bbbbbbbbbbbb cc'' (Some 5))"
    by code_simp
  show ?thesis using h chunk_text_size_bound [OF h] by (simp add: list_all_iff)
qed

text \<open>
  Claim C2. With \<open>chunk_overlap = 0\<close>, joining the returned chunks with single spaces
  gives the whitespace-normalised text \<open>re.sub(r"\s+", " ", text.strip())\<close>, for every
  text and every \<open>chunk_size\<close>.
\<close>

theorem chunk_text_join_no_overlap:
  assumes "chunk_overlap self = 0"
  shows "join_sp (chunk_text self text arg) = re_sub_ws False (strip text)"
proof (cases "strip text = []")
  case True
  then show ?thesis by (simp add: chunk_text_def)
next
  case False
  let ?csz = "case arg of None \<Rightarrow> chunk_size self | Some n \<Rightarrow> n"
  let ?t = "re_sub_ws False (strip text)"
  have n: "norm ?t" using False by (rule normalised_norm)
  have t: "text \<noteq> []" using False by auto
  show ?thesis
  proof (cases "int (length ?t) \<le> ?csz")
    case True
    then show ?thesis using False t by (simp add: chunk_text_def Let_def)
  next
    case False
    have "join_sp (concat (map (resplit ?csz) (sentence_chunks ?csz 0 ?t))) = ?t"
      using concat_resplit_join [OF sentence_chunks_norm(1) [OF n]] sentence_chunks_join0 [OF n]
      by simp
    then show ?thesis using False \<open>strip text \<noteq> []\<close> t assms
      by (simp add: chunk_text_def Let_def chunk_loop_resplit)
  qed
qed

theorem chunk_text_join_no_overlap_witness:
  "chunk_overlap \<lparr>chunk_size = 1000, chunk_overlap = 0, max_file_size = 100\<rparr> = 0 \<and>
   chunk_text \<lparr>chunk_size = 1000, chunk_overlap = 0, max_file_size = 100\<rparr>
       '' aaaa.   bbbb. cccc dddd eeeeeeeeeeeeeeeeeee ff.  gg '' (Some 10)
     = [''aaaa.'', ''bbbb.'', ''cccc dddd'', ''eeeeeeeeeeeeeeeeeee'', ''ff.'', ''gg''] \<and>
   join_sp (chunk_text \<lparr>chunk_size = 1000, chunk_overlap = 0, max_file_size = 100\<rparr>
       '' aaaa.   bbbb. cccc dddd eeeeeeeeeeeeeeeeeee ff.  gg '' (Some 10))
     = ''aaaa. bbbb. cccc dddd eeeeeeeeeeeeeeeeeee ff. gg''"
proof -
  have a: "chunk_text \<lparr>chunk_size = 1000, chunk_overlap = 0, max_file_size = 100\<rparr>
       '' aaaa.   bbbb. cccc dddd eeeeeeeeeeeeeeeeeee ff.  gg '' (Some 10)
     = [''aaaa.'', ''bbbb.'', ''cccc dddd'', ''eeeeeeeeeeeeeeeeeee'', ''ff.'', ''gg'']"
    by code_simp
  have b: "re_sub_ws False (strip '' aaaa.   bbbb. cccc dddd eeeeeeeeeeeeeeeeeee ff.  gg '')
     = ''aaaa. bbbb. cccc dddd eeeeeeeeeeeeeeeeeee ff. gg''"
    by code_simp
  show ?thesis
    using chunk_text_join_no_overlap [of "\<lparr>chunk_size = 1000, chunk_overlap = 0, max_file_size = 100\<rparr>"
        "'' aaaa.   bbbb. cccc dddd eeeeeeeeeeeeeeeeeee ff.  gg ''" "Some 10"] a b
    by simp
qed

text \<open>
  Claim C10. Every chunk that \<open>chunk_text\<close> returns is non-empty and equals its own
  \<open>strip()\<close>, for every text, \<open>chunk_size\<close> and overlap.
\<close>

theorem chunk_text_chunks_trimmed:
  assumes "c \<in> set (chunk_text self text arg)"
  shows "c \<noteq> [] \<and> strip c = c"
proof -
  let ?csz = "case arg of None \<Rightarrow> chunk_size self | Some n \<Rightarrow> n"
  let ?t = "re_sub_ws False (strip text)"
  have ne: "strip text \<noteq> []" using assms by (auto simp: chunk_text_def split: if_splits)
  have n: "norm ?t" using ne by (rule normalised_norm)
  have "trimmed c"
  proof (cases "int (length ?t) \<le> ?csz")
    case True
    then show ?thesis using assms n by (auto simp: chunk_text_def Let_def norm_def split: if_splits)
  next
    case False
    then have "c \<in> set (concat (map (resplit ?csz) (sentence_chunks ?csz (chunk_overlap self) ?t)))"
      using assms by (auto simp: chunk_text_def Let_def chunk_loop_resplit split: if_splits)
    then show ?thesis
      using concat_resplit_trimmed [OF sentence_chunks_norm(1) [OF n], of ?csz ?csz "chunk_overlap self"]
      unfolding list_all_iff by blast
  qed
  then show ?thesis by (simp add: strip_id trimmed_def)
qed

theorem chunk_text_chunks_trimmed_witness:
  "''b. cc.'' \<in> set (chunk_text \<lparr>chunk_size = 8, chunk_overlap = 3, max_file_size = 100\<rparr>
        ''aaaa b.  cc.'' None) \<and> ''b. cc.'' \<noteq> [] \<and> strip ''b. cc.'' = ''b. cc.''"
proof -
  have h: "''b. cc.'' \<in> set (chunk_text \<lparr>chunk_size = 8, chunk_overlap = 3, max_file_size = 100\<rparr>
        ''aaaa b.  cc.'' None)"
    by code_simp
  show ?thesis using h chunk_text_chunks_trimmed [OF h] by simp
qed

subsection \<open>The total length of the chunks\<close>

lemma wt_simps [simp]: "wt [] = 0" "wt (x # xs) = Suc (length x) + wt xs"
  "wt (xs @ ys) = wt xs + wt ys"
  by (simp_all add: wt_def)

lemma join_sp_wt: "xs \<noteq> [] \<Longrightarrow> Suc (length (join_sp xs)) = wt xs"
  by (induction xs rule: join_sp.induct) simp_all

lemma wt_sum: "wt xs = sum_list (map length xs) + length xs"
  by (induction xs) simp_all

lemma lstrip_append_nonblank: "lstrip a \<noteq> [] \<Longrightarrow> lstrip (a @ z) = lstrip a @ z"
  by (auto simp: lstrip_def dropWhile_append)

lemma good_lstrip: "good b \<Longrightarrow> lstrip b \<noteq> []"
  using good_strip [of b] by (auto simp: norm_def trimmed_def)

lemma good_strip_nonempty: "good b \<Longrightarrow> strip b \<noteq> []"
  using good_strip [of b] norm_nonempty [of "strip b"] by blast

lemma strip_seed_length:
  assumes "norm s"
  shows "length s \<le> length (strip (x @ s))"
proof -
  have s: "s \<noteq> []" "\<not> isspace (hd s)" "\<not> isspace (last s)"
    using assms by (simp_all add: norm_def trimmed_def)
  have "dropWhile isspace s = s" using s by (cases s) auto
  then have "lstrip (x @ s) = lstrip x @ s \<or> lstrip (x @ s) = s"
    by (simp add: lstrip_def dropWhile_append)
  then obtain y where y: "lstrip (x @ s) = y @ s" by auto
  have "rstrip (y @ s) = y @ s" using s by (intro rstrip_id) simp
  then show ?thesis using y by (simp add: strip_def)
qed

lemma strip_extend_length:
  assumes "good cur" "norm s"
  shows "length (strip (cur @ CHR '' '' # s)) = length (strip cur) + 1 + length s"
proof -
  have "strip (cur @ CHR '' '' # s) = lstrip (cur @ CHR '' '' # s)"
    using good_strip [OF good_join [OF assms]] by simp
  also have "\<dots> = lstrip cur @ CHR '' '' # s"
    using good_lstrip [OF assms(1)] by (rule lstrip_append_nonblank)
  finally show ?thesis using good_strip [OF assms(1)] by simp
qed

lemma buffers_wt:
  "list_all norm ss \<Longrightarrow> cur = [] \<or> good cur \<Longrightarrow>
   wt (opt (strip cur)) + wt ss \<le> wt (map strip (buffers csz ov cur ss))"
proof (induction ss arbitrary: cur)
  case Nil
  then show ?case by (simp add: opt_def)
next
  case (Cons s ss)
  have s: "norm s" and ss: "list_all norm ss" using Cons.prems(1) by simp_all
  have sne: "s \<noteq> []" using s by (rule norm_nonempty)
  have ih: "\<And>c. c = [] \<or> good c \<Longrightarrow> wt (opt (strip c)) + wt ss \<le> wt (map strip (buffers csz ov c ss))"
    using Cons.IH [OF ss] by simp
  have 1: "Suc (length s) + wt ss \<le> wt (map strip (buffers csz ov s ss))"
    using ih [of s] s sne by (simp add: norm_good norm_strip_id)
  show ?case
  proof (cases "cur = []")
    case True
    then show ?thesis using 1 by simp
  next
    case False
    then have g: "good cur" using Cons.prems(2) by simp
    have sc: "strip cur \<noteq> []" using g by (rule good_strip_nonempty)
    let ?e = "cur @ '' '' @ s"
    have ge: "good ?e" using good_join [OF g s] by simp
    have 2: "Suc (length (strip cur)) + Suc (length s) + wt ss \<le> wt (map strip (buffers csz ov ?e ss))"
      using ih [of ?e] ge strip_extend_length [OF g s] good_strip_nonempty [OF ge]
      by simp
    let ?d = "drop (length cur - nat ov) cur @ '' '' @ s"
    have 3: "0 < ov \<Longrightarrow> ov < int (length cur) \<Longrightarrow>
        Suc (length s) + wt ss \<le> wt (map strip (buffers csz ov ?d ss))"
    proof -
      assume a: "0 < ov" "ov < int (length cur)"
      then have "good (drop (length cur - nat ov) cur)" using g by (intro good_drop) auto
      then have gd: "good ?d" using good_join [OF _ s] by simp
      have "length s \<le> length (strip ?d)"
        using strip_seed_length [OF s, of "drop (length cur - nat ov) cur @ '' ''"] by simp
      moreover have "strip ?d \<noteq> []" using gd by (rule good_strip_nonempty)
      ultimately show ?thesis using ih [of ?d] gd by simp
    qed
    show ?thesis using False sc 1 2 3 by auto
  qed
qed

lemma sentence_chunks_wt:
  assumes "norm t"
  shows "length t \<le> length (join_sp (sentence_chunks csz ov t))"
proof -
  let ?ss = "re_split_sentences False [] t"
  let ?bs = "buffers csz ov [] ?ss"
  have ss: "list_all norm ?ss" by (rule sentences_norm(1) [OF assms])
  have "wt ?ss \<le> wt (map strip ?bs)" using buffers_wt [OF ss, of "[]" csz ov] by simp
  moreover have "Suc (length (join_sp ?ss)) = wt ?ss" by (intro join_sp_wt) simp
  moreover have "Suc (length (join_sp (map strip ?bs))) = wt (map strip ?bs)"
    by (intro join_sp_wt) simp
  ultimately show ?thesis
    using sentences_norm(2) [OF assms] sentence_chunks_norm(2) [OF assms, of csz ov] by simp
qed

lemma join_sp_length: "length (join_sp xs) = sum_list (map length xs) + (length xs - 1)"
  by (induction xs rule: join_sp.induct) simp_all

lemma sentence_chunks_blank: "sentence_chunks csz ov [] = []"
  by (simp add: sentence_chunks_def)

lemma join_sp_Cons_length: "length x \<le> length (join_sp (x # xs))"
  by (simp add: join_sp_Cons)

lemma buffers_fits:
  "list_all norm ss \<Longrightarrow> int (length (join_sp (opt cur @ ss))) \<le> csz \<Longrightarrow>
   buffers csz ov cur ss = [join_sp (opt cur @ ss)]"
proof (induction ss arbitrary: cur)
  case Nil
  then show ?case by (simp add: opt_def)
next
  case (Cons s ss)
  have s: "s \<noteq> []" and ss: "list_all norm ss"
    using Cons.prems(1) by (simp_all add: norm_nonempty)
  show ?case
  proof (cases "cur = []")
    case True
    have "buffers csz ov s ss = [join_sp (opt s @ ss)]"
      using Cons.prems(2) True s by (intro Cons.IH [OF ss]) simp
    then show ?thesis using True s by simp
  next
    case False
    have j: "join_sp (opt cur @ s # ss) = join_sp (opt (cur @ '' '' @ s) @ ss)"
      using False by (simp add: join_sp_Cons)
    have "length cur + 1 + length s \<le> length (join_sp (opt cur @ s # ss))"
      using False join_sp_Cons_length [of s ss] by (simp add: join_sp_Cons)
    then have fit: "\<not> int (length cur) + int (length s) > csz" using Cons.prems(2) by linarith
    have "buffers csz ov (cur @ '' '' @ s) ss = [join_sp (opt (cur @ '' '' @ s) @ ss)]"
      using Cons.prems(2) unfolding j by (rule Cons.IH [OF ss])
    then show ?thesis using False fit j by simp
  qed
qed

lemma sentence_chunks_fits:
  assumes "norm t" "int (length t) \<le> csz"
  shows "sentence_chunks csz ov t = [t]"
proof -
  let ?ss = "re_split_sentences False [] t"
  have "buffers csz ov [] ?ss = [join_sp (opt [] @ ?ss)]"
    using sentences_norm [OF assms(1)] assms(2) by (intro buffers_fits) simp_all
  then have "buffers csz ov [] ?ss = [t]" using sentences_norm(2) [OF assms(1)] by simp
  then show ?thesis
    using sentence_chunks_norm(2) [OF assms(1), of csz ov] assms(1) by (simp add: norm_strip_id)
qed

lemma chunk_text_chunk_loop:
  "chunk_text self text arg =
     chunk_loop (case arg of None \<Rightarrow> chunk_size self | Some n \<Rightarrow> n) []
       (sentence_chunks (case arg of None \<Rightarrow> chunk_size self | Some n \<Rightarrow> n) (chunk_overlap self)
          (re_sub_ws False (strip text)))"
proof (cases "strip text = []")
  case True
  then show ?thesis by (simp add: chunk_text_def sentence_chunks_blank)
next
  case False
  then have t: "text \<noteq> []" by auto
  have n: "norm (re_sub_ws False (strip text))" using False by (rule normalised_norm)
  show ?thesis
    using False t sentence_chunks_fits [OF n]
    by (simp add: chunk_text_def Let_def)
qed


lemma chunk_text_join_length:
  "length (re_sub_ws False (strip text)) \<le> length (join_sp (chunk_text self text arg))"
proof (cases "strip text = []")
  case True
  then show ?thesis by simp
next
  case False
  let ?csz = "case arg of None \<Rightarrow> chunk_size self | Some n \<Rightarrow> n"
  let ?t = "re_sub_ws False (strip text)"
  have n: "norm ?t" using False by (rule normalised_norm)
  let ?cs = "sentence_chunks ?csz (chunk_overlap self) ?t"
  have "join_sp (concat (map (resplit ?csz) ?cs)) = join_sp ?cs"
    by (rule concat_resplit_join [OF sentence_chunks_norm(1) [OF n]])
  moreover have "chunk_text self text arg = concat (map (resplit ?csz) ?cs)"
    by (simp add: chunk_text_chunk_loop [of self "text" arg] chunk_loop_resplit)
  ultimately show ?thesis
    using sentence_chunks_wt [OF n, of ?csz "chunk_overlap self"] by simp
qed

text \<open>
  Claim C5, as amended. The claim compares the summed chunk lengths with the length of
  the text before normalisation; normalisation shortens the text, and the space between
  two sentences that end up in different chunks is in neither. What holds, for every
  \<open>chunk_size\<close> and overlap: the returned chunks joined by single spaces are at least as
  long as the whitespace-normalised text. For a text that is not blank this says that
  the summed lengths of the chunks plus one per gap between them are at least the length
  of the normalised text (in the integers); for a blank text there is no chunk and the
  normalised text is empty.
\<close>

theorem chunk_text_total_length:
  "length (re_sub_ws False (strip text)) \<le> length (join_sp (chunk_text self text arg)) \<and>
   (strip text \<noteq> [] \<longrightarrow>
      chunk_text self text arg \<noteq> [] \<and>
      int (length (re_sub_ws False (strip text))) \<le>
        int (sum_list (map length (chunk_text self text arg)))
          + (int (length (chunk_text self text arg)) - 1)) \<and>
   (strip text = [] \<longrightarrow>
      chunk_text self text arg = [] \<and> re_sub_ws False (strip text) = [])"
proof -
  let ?t = "re_sub_ws False (strip text)"
  let ?r = "chunk_text self text arg"
  have a: "length ?t \<le> length (join_sp ?r)" by (rule chunk_text_join_length)
  have b: "?r \<noteq> [] \<and> int (length ?t) \<le> int (sum_list (map length ?r)) + (int (length ?r) - 1)"
    if ne: "strip text \<noteq> []"
  proof -
    have "?t \<noteq> []" using normalised_norm [OF ne] by (rule norm_nonempty)
    then have r: "?r \<noteq> []" using a by auto
    then have d: "int (length ?r - 1) = int (length ?r) - 1" by (cases ?r) simp_all
    have "length (join_sp ?r) = sum_list (map length ?r) + (length ?r - 1)"
      by (rule join_sp_length)
    then have "int (length (join_sp ?r)) = int (sum_list (map length ?r)) + (int (length ?r) - 1)"
      using d by linarith
    then show ?thesis using a r by linarith
  qed
  have c: "?r = [] \<and> ?t = []" if "strip text = []"
    using that by (simp add: chunk_text_def)
  show ?thesis using a b c by blast
qed

theorem chunk_text_total_length_witness:
  "strip ''aaaa b.  cc.'' \<noteq> [] \<and>
   chunk_text \<lparr>chunk_size = 8, chunk_overlap = 4, max_file_size = 100\<rparr> ''aaaa b.  cc.'' None
     = [''aaaa b.'', ''a b. cc.''] \<and>
   int (length (re_sub_ws False (strip ''aaaa b.  cc.''))) \<le>
     int (sum_list (map length [''aaaa b.'', ''a b. cc.''])) + (int (length [''aaaa b.'', ''a b. cc.'']) - 1) \<and>
   strip ''  '' = [] \<and>
   chunk_text \<lparr>chunk_size = 8, chunk_overlap = 4, max_file_size = 100\<rparr> ''  '' None = []"
proof -
  let ?M = "\<lparr>chunk_size = 8, chunk_overlap = 4, max_file_size = 100\<rparr>"
  have ne: "strip ''aaaa b.  cc.'' \<noteq> []" by code_simp
  have bl: "strip ''  '' = []" by code_simp
  have r: "chunk_text ?M ''aaaa b.  cc.'' None = [''aaaa b.'', ''a b. cc.'']" by code_simp
  show ?thesis
    using chunk_text_total_length [of "''aaaa b.  cc.''" ?M None]
      chunk_text_total_length [of "''  ''" ?M None] ne bl r
    by simp
qed

text \<open>
  Claim C5 as stated fails. With overlap 200 and \<open>chunk_size = 1000\<close> the text
  \<open>a    b\<close> (six characters) gives the one chunk \<open>a b\<close>. With overlap 3 and
  \<open>chunk_size = 5\<close> the text \<open>aa. bb.\<close>, already normalised, gives two chunks of three
  characters: the first buffer is not longer than the overlap, so nothing is carried over.
\<close>

theorem chunk_text_total_length_counterexample:
  "0 < chunk_overlap \<lparr>chunk_size = 1000, chunk_overlap = 200, max_file_size = 100\<rparr> \<and>
   chunk_text \<lparr>chunk_size = 1000, chunk_overlap = 200, max_file_size = 100\<rparr> ''a    b'' None
     = [''a b''] \<and>
   sum_list (map length
     (chunk_text \<lparr>chunk_size = 1000, chunk_overlap = 200, max_file_size = 100\<rparr> ''a    b'' None))
     < length ''a    b'' \<and>
   0 < chunk_overlap \<lparr>chunk_size = 5, chunk_overlap = 3, max_file_size = 100\<rparr> \<and>
   chunk_text \<lparr>chunk_size = 5, chunk_overlap = 3, max_file_size = 100\<rparr> ''aa. bb.'' None
     = [''aa.'', ''bb.''] \<and>
   sum_list (map length
     (chunk_text \<lparr>chunk_size = 5, chunk_overlap = 3, max_file_size = 100\<rparr> ''aa. bb.'' None))
     < length ''aa. bb.''"
  by code_simp

subsection \<open>The overlap between consecutive chunks\<close>









section \<open>Theorems about the score normaliser\<close>

lemma normalize_score_finite:
  assumes "py_float parse score = Inr (Finite x)"
  shows "normalize_score parse score =
     Inr (PyFloat (Finite (if x \<le> 0 then 0 else (max (- 1) (min 1 (1 - 1 / x)) + 1) / 2)))"
proof (cases "x \<le> 0")
  case True
  then show ?thesis using assms by (auto simp: normalize_score_def py_le_def)
next
  case False
  then have le: "\<not> py_le (Finite x) (Finite 0)" by (auto simp: py_le_def)
  have "py_max (Finite (- 1)) (py_min (Finite 1) (py_sub (Finite 1) (Finite (1 / x))))
      = Finite (max (- 1) (min 1 (1 - 1 / x)))"
    by (auto simp: py_max_def py_min_def py_sub_def max_def min_def)
  then show ?thesis using assms False le by (simp add: normalize_score_def Let_def)
qed

lemma correct_pgvector_score_converted:
  assumes "score \<noteq> PyStr ''N/A''" "py_float parse score = Inr v"
  shows "v = PosInf \<Longrightarrow> correct_pgvector_score parse score = Inr (PyFloat (Finite 1))"
    and "v = NegInf \<Longrightarrow> correct_pgvector_score parse score = Inr (PyFloat (Finite 0))"
    and "v = Finite x \<Longrightarrow> x \<le> 0 \<Longrightarrow> correct_pgvector_score parse score = Inr (PyFloat (Finite 0))"
    and "v = Finite x \<Longrightarrow> 0 < x \<Longrightarrow> correct_pgvector_score parse score =
        Inr (PyFloat (Finite ((max (- 1) (min 1 (1 - 1 / x)) + 1) / 2)))"
proof -
  have none: "score \<noteq> PyNone" using assms(2) by (cases score) auto
  show "v = PosInf \<Longrightarrow> correct_pgvector_score parse score = Inr (PyFloat (Finite 1))"
    using assms none by (simp add: correct_pgvector_score_def normalize_score_def)
  show "v = NegInf \<Longrightarrow> correct_pgvector_score parse score = Inr (PyFloat (Finite 0))"
    using assms none by (simp add: correct_pgvector_score_def normalize_score_def py_le_def)
  have fin: "v = Finite x \<Longrightarrow> correct_pgvector_score parse score =
        Inr (PyFloat (Finite (if x \<le> 0 then 0 else (max (- 1) (min 1 (1 - 1 / x)) + 1) / 2)))"
    using assms none normalize_score_finite [of parse score x]
    by (simp add: correct_pgvector_score_def)
  show "v = Finite x \<Longrightarrow> x \<le> 0 \<Longrightarrow> correct_pgvector_score parse score = Inr (PyFloat (Finite 0))"
    using fin by simp
  show "v = Finite x \<Longrightarrow> 0 < x \<Longrightarrow> correct_pgvector_score parse score =
        Inr (PyFloat (Finite ((max (- 1) (min 1 (1 - 1 / x)) + 1) / 2)))"
    using fin by simp
qed

text \<open>
  Claim C4, as amended. \<open>"N/A"\<close> and \<open>None\<close> are returned unchanged. For an argument
  that \<open>float\<close> converts, the result follows the value \<open>v\<close> it converts to:
  \<open>+infinity\<close> gives \<open>1.0\<close>, \<open>v \<le> 0\<close> (or \<open>-infinity\<close>) gives \<open>0.0\<close>, and a finite
  \<open>v > 0\<close> gives \<open>(clamp(1 - 1/v, -1, 1) + 1) / 2\<close>. Every float converts, to itself;
  an \<open>int\<close> converts when its magnitude is below \<open>2^1024 - 2^970\<close>. The first eight
  conjuncts are these cases for a float and an \<open>int\<close> argument, the last four for any
  argument by its converted value (a bool, a string that \<open>float\<close> reads).
\<close>

theorem correct_pgvector_score_cases:
  "correct_pgvector_score parse (PyStr ''N/A'') = Inr (PyStr ''N/A'') \<and>
   correct_pgvector_score parse PyNone = Inr PyNone \<and>
   correct_pgvector_score parse (PyFloat PosInf) = Inr (PyFloat (Finite 1)) \<and>
   correct_pgvector_score parse (PyFloat NegInf) = Inr (PyFloat (Finite 0)) \<and>
   (x \<le> 0 \<longrightarrow> correct_pgvector_score parse (PyFloat (Finite x)) = Inr (PyFloat (Finite 0))) \<and>
   (0 < x \<longrightarrow> correct_pgvector_score parse (PyFloat (Finite x)) =
      Inr (PyFloat (Finite ((max (- 1) (min 1 (1 - 1 / x)) + 1) / 2)))) \<and>
   (\<bar>i\<bar> < 2 ^ 1024 - 2 ^ 970 \<and> i \<le> 0 \<longrightarrow>
      correct_pgvector_score parse (PyInt i) = Inr (PyFloat (Finite 0))) \<and>
   (\<bar>i\<bar> < 2 ^ 1024 - 2 ^ 970 \<and> 0 < i \<longrightarrow>
      correct_pgvector_score parse (PyInt i) =
        Inr (PyFloat (Finite ((max (- 1) (min 1 (1 - 1 / of_int i)) + 1) / 2)))) \<and>
   (score \<noteq> PyStr ''N/A'' \<and> py_float parse score = Inr PosInf \<longrightarrow>
      correct_pgvector_score parse score = Inr (PyFloat (Finite 1))) \<and>
   (score \<noteq> PyStr ''N/A'' \<and> py_float parse score = Inr NegInf \<longrightarrow>
      correct_pgvector_score parse score = Inr (PyFloat (Finite 0))) \<and>
   (score \<noteq> PyStr ''N/A'' \<and> py_float parse score = Inr (Finite y) \<and> y \<le> 0 \<longrightarrow>
      correct_pgvector_score parse score = Inr (PyFloat (Finite 0))) \<and>
   (score \<noteq> PyStr ''N/A'' \<and> py_float parse score = Inr (Finite y) \<and> 0 < y \<longrightarrow>
      correct_pgvector_score parse score =
        Inr (PyFloat (Finite ((max (- 1) (min 1 (1 - 1 / y)) + 1) / 2))))"
proof -
  have f: "py_float parse (PyFloat v) = Inr v" "PyFloat v \<noteq> PyStr ''N/A''" for v
    by simp_all
  have n: "\<bar>i\<bar> < 2 ^ 1024 - 2 ^ 970 \<Longrightarrow> py_float parse (PyInt i) = Inr (Finite (of_int i))"
    "PyInt i \<noteq> PyStr ''N/A''"
    by simp_all
  have 1: "correct_pgvector_score parse (PyFloat PosInf) = Inr (PyFloat (Finite 1))"
    by (rule correct_pgvector_score_converted(1) [OF f(2) f(1)]) simp
  have 2: "correct_pgvector_score parse (PyFloat NegInf) = Inr (PyFloat (Finite 0))"
    by (rule correct_pgvector_score_converted(2) [OF f(2) f(1)]) simp
  have 3: "x \<le> 0 \<Longrightarrow> correct_pgvector_score parse (PyFloat (Finite x)) = Inr (PyFloat (Finite 0))"
    by (rule correct_pgvector_score_converted(3) [OF f(2) f(1)]) simp_all
  have 4: "0 < x \<Longrightarrow> correct_pgvector_score parse (PyFloat (Finite x)) =
      Inr (PyFloat (Finite ((max (- 1) (min 1 (1 - 1 / x)) + 1) / 2)))"
    by (rule correct_pgvector_score_converted(4) [OF f(2) f(1)]) simp_all
  have 5: "correct_pgvector_score parse (PyInt i) = Inr (PyFloat (Finite 0))"
    if a: "\<bar>i\<bar> < 2 ^ 1024 - 2 ^ 970" and b: "i \<le> 0"
  proof -
    have "(of_int i :: real) \<le> 0" using b by simp
    then show ?thesis
      by (rule correct_pgvector_score_converted(3) [OF n(2) n(1) [OF a] refl])
  qed
  have 6: "correct_pgvector_score parse (PyInt i) =
        Inr (PyFloat (Finite ((max (- 1) (min 1 (1 - 1 / of_int i)) + 1) / 2)))"
    if a: "\<bar>i\<bar> < 2 ^ 1024 - 2 ^ 970" and b: "0 < i"
  proof -
    have "(0 :: real) < of_int i" using b by simp
    then show ?thesis
      by (rule correct_pgvector_score_converted(4) [OF n(2) n(1) [OF a] refl])
  qed
  have 7: "score \<noteq> PyStr ''N/A'' \<Longrightarrow> py_float parse score = Inr PosInf \<Longrightarrow>
      correct_pgvector_score parse score = Inr (PyFloat (Finite 1))"
    by (rule correct_pgvector_score_converted(1)) simp_all
  have 8: "score \<noteq> PyStr ''N/A'' \<Longrightarrow> py_float parse score = Inr NegInf \<Longrightarrow>
      correct_pgvector_score parse score = Inr (PyFloat (Finite 0))"
    by (rule correct_pgvector_score_converted(2)) simp_all
  have 9: "score \<noteq> PyStr ''N/A'' \<Longrightarrow> py_float parse score = Inr (Finite y) \<Longrightarrow> y \<le> 0 \<Longrightarrow>
      correct_pgvector_score parse score = Inr (PyFloat (Finite 0))"
    by (rule correct_pgvector_score_converted(3)) simp_all
  have 10: "score \<noteq> PyStr ''N/A'' \<Longrightarrow> py_float parse score = Inr (Finite y) \<Longrightarrow> 0 < y \<Longrightarrow>
      correct_pgvector_score parse score =
        Inr (PyFloat (Finite ((max (- 1) (min 1 (1 - 1 / y)) + 1) / 2)))"
    by (rule correct_pgvector_score_converted(4)) simp_all
  have 0: "correct_pgvector_score parse (PyStr ''N/A'') = Inr (PyStr ''N/A'')"
    "correct_pgvector_score parse PyNone = Inr PyNone"
    by (simp_all add: correct_pgvector_score_def)
  show ?thesis using 0 1 2 3 4 5 6 7 8 9 10 by blast
qed

text \<open>The values the specification lists: \<open>normalize(float('inf')) = 1.0\<close>,
  \<open>normalize(1.0) = 0.5\<close>, \<open>normalize(0) = 0.0\<close>, \<open>normalize(-5) = 0.0\<close> and
  \<open>normalize("N/A") = "N/A"\<close>.\<close>

theorem correct_pgvector_score_cases_witness:
  "correct_pgvector_score (\<lambda>s. None) (PyFloat PosInf) = Inr (PyFloat (Finite 1)) \<and>
   correct_pgvector_score (\<lambda>s. None) (PyFloat (Finite 1)) = Inr (PyFloat (Finite (1 / 2))) \<and>
   correct_pgvector_score (\<lambda>s. None) (PyInt 0) = Inr (PyFloat (Finite 0)) \<and>
   correct_pgvector_score (\<lambda>s. None) (PyInt (- 5)) = Inr (PyFloat (Finite 0)) \<and>
   correct_pgvector_score (\<lambda>s. None) (PyFloat (Finite 4)) = Inr (PyFloat (Finite (7 / 8))) \<and>
   correct_pgvector_score (\<lambda>s. None) (PyInt 4) = Inr (PyFloat (Finite (7 / 8))) \<and>
   correct_pgvector_score (\<lambda>s. None) (PyBool True) = Inr (PyFloat (Finite (1 / 2))) \<and>
   correct_pgvector_score (\<lambda>s. None) (PyStr ''N/A'') = Inr (PyStr ''N/A'')"
  using correct_pgvector_score_cases [of "\<lambda>s. None" 1 0 "PyBool True" 1]
    correct_pgvector_score_cases [of "\<lambda>s. None" 4 "- 5" "PyBool True" 1]
    correct_pgvector_score_cases [of "\<lambda>s. None" 4 4 "PyBool True" 1]
  by simp

text \<open>
  Claim C4 as stated fails for a numeric argument that \<open>float\<close> does not convert: the
  \<open>int\<close> \<open>-2^1024\<close> is at most 0, and the call raises \<open>OverflowError\<close> where the claim
  has \<open>0.0\<close>.
\<close>

theorem correct_pgvector_score_cases_counterexample:
  "correct_pgvector_score (\<lambda>s. None) (PyInt (- (2 ^ 1024))) = Inl OverflowError \<and>
   correct_pgvector_score (\<lambda>s. None) (PyInt (- (2 ^ 1024))) \<noteq> Inr (PyFloat (Finite 0))"
  by (simp add: correct_pgvector_score_def normalize_score_def)

text \<open>
  Claim C6: the code raises. \<open>float\<close> raises \<open>TypeError\<close> for an object that is neither a
  string nor a number and \<open>OverflowError\<close> for an \<open>int\<close> beyond the doubles; the handler
  catches neither.
\<close>

theorem correct_pgvector_score_raises:
  "correct_pgvector_score parse (PyList [PyFloat (Finite (1 / 2))]) = Inl TypeError \<and>
   correct_pgvector_score parse (PyInt (2 ^ 1024)) = Inl OverflowError"
  by (simp add: correct_pgvector_score_def normalize_score_def)

text \<open>What does hold: an argument that \<open>float\<close> rejects with \<open>ValueError\<close> comes back
  unchanged.\<close>

lemma correct_pgvector_score_passthrough:
  "py_float parse score = Inl ValueError \<Longrightarrow> correct_pgvector_score parse score = Inr score"
  by (simp add: correct_pgvector_score_def normalize_score_def)

section \<open>Theorems about paths and the extractors\<close>

lemma str_contains_dotdot: "str_contains ''..'' s = has_dotdot s"
  by (induction s rule: has_dotdot.induct) auto

lemma has_dotdot_append:
  "has_dotdot (xs @ ys) \<longleftrightarrow> has_dotdot xs \<or> has_dotdot ys \<or>
     (xs \<noteq> [] \<and> ys \<noteq> [] \<and> last xs = CHR ''.'' \<and> hd ys = CHR ''.'')"
proof (induction xs rule: has_dotdot.induct)
  case 1
  then show ?case by simp
next
  case (2 c)
  then show ?case by (cases ys) auto
next
  case (3 a b cs)
  then show ?case by auto
qed

lemma has_dotdot_Cons_other: "c \<noteq> CHR ''.'' \<Longrightarrow> has_dotdot (c # cs) = has_dotdot cs"
  by (cases cs) auto

lemma has_dotdot_dropWhile:
  "has_dotdot s \<Longrightarrow> has_dotdot (dropWhile (\<lambda>c. c = CHR ''/'') s)"
  by (induction s) (auto simp: has_dotdot_Cons_other)

lemma has_dotdot_split:
  "has_dotdot (w @ s) \<Longrightarrow> \<exists>x\<in>set (split_on CHR ''/'' w s). has_dotdot x"
proof (induction s arbitrary: w)
  case Nil
  then show ?case by simp
next
  case (Cons c cs)
  show ?case
  proof (cases "c = CHR ''/''")
    case True
    then have "has_dotdot w \<or> has_dotdot ([] @ cs)"
      using Cons.prems by (auto simp: has_dotdot_append has_dotdot_Cons_other)
    then show ?thesis using True Cons.IH [of "[]"] by auto
  next
    case False
    have "has_dotdot ((w @ [c]) @ cs)" using Cons.prems by simp
    then show ?thesis using False Cons.IH [of "w @ [c]"] by simp
  qed
qed

lemma has_dotdot_join: "x \<in> set xs \<Longrightarrow> has_dotdot x \<Longrightarrow> has_dotdot (join_slash xs)"
  by (induction xs rule: join_slash.induct) (auto simp: has_dotdot_append has_dotdot_Cons_other)

lemma has_dotdot_nonempty: "has_dotdot x \<Longrightarrow> x \<noteq> [] \<and> x \<noteq> ''.''"
  by auto

lemma path_str_dotdot:
  assumes "str_contains ''..'' s"
  shows "str_contains ''..'' (path_str (Path s))"
proof -
  let ?rel = "dropWhile (\<lambda>c. c = CHR ''/'') s"
  have "has_dotdot ([] @ ?rel)"
    using assms by (simp add: str_contains_dotdot has_dotdot_dropWhile)
  then obtain x where x: "x \<in> set (split_on CHR ''/'' [] ?rel)" "has_dotdot x"
    using has_dotdot_split by blast
  then have "x \<in> set (path_parts (Path s))"
    using has_dotdot_nonempty [OF x(2)] by (simp add: Path_def Let_def)
  then have j: "has_dotdot (join_slash (path_parts (Path s)))"
    using x(2) by (rule has_dotdot_join)
  then have "has_dotdot (path_root (Path s) @ join_slash (path_parts (Path s)))"
    by (simp add: has_dotdot_append)
  moreover have "path_root (Path s) @ join_slash (path_parts (Path s)) \<noteq> []"
    using j by auto
  ultimately show ?thesis by (simp add: path_str_def Let_def str_contains_dotdot)
qed

text \<open>
  Claim C9. For a path string that contains \<open>..\<close>, whatever the file system holds,
  \<open>_is_safe_path\<close> is false of the path that \<open>process_document\<close> builds from it, and
  \<open>process_document\<close> returns \<open>("", {}, False)\<close> without a call to an extractor or a read
  of the file.
\<close>

theorem unsafe_path_rejected:
  assumes "str_contains ''..'' s"
  shows "\<not> is_safe_path e (Path s) \<and>
         process_document e self s = (([], Map.empty, False), [])"
  using path_str_dotdot [OF assms] by (simp add: is_safe_path_def process_document_def Let_def)

theorem unsafe_path_rejected_witness:
  "str_contains ''..'' ''../../etc/passwd'' \<and>
   \<not> is_safe_path \<lparr>stat = \<lambda>p. Regular 10, pypdf = True, read_pdf = \<lambda>p. None, pdf_text = \<lambda>p. ''x'',
        load_json = \<lambda>p. None, json_text = \<lambda>p. ''x'', read_text = \<lambda>p. Some ''root:x:0:0''\<rparr>
      (Path ''../../etc/passwd'') \<and>
   process_document \<lparr>stat = \<lambda>p. Regular 10, pypdf = True, read_pdf = \<lambda>p. None, pdf_text = \<lambda>p. ''x'',
        load_json = \<lambda>p. None, json_text = \<lambda>p. ''x'', read_text = \<lambda>p. Some ''root:x:0:0''\<rparr>
      \<lparr>chunk_size = 1000, chunk_overlap = 200, max_file_size = 104857600\<rparr> ''../../etc/passwd''
     = (([], Map.empty, False), [])"
proof -
  have h: "str_contains ''..'' ''../../etc/passwd''" by simp
  show ?thesis using h unsafe_path_rejected [OF h] by simp
qed

lemma set_if_truthy_keeps: "m k = Some v \<Longrightarrow> k' \<noteq> k \<Longrightarrow> set_if_truthy k' x m k = Some v"
  by (simp add: set_if_truthy_def split: option.splits)

lemma pdf_extract_metadata_keys:
  "pdf_extract_metadata e file_path ''file_extension'' = Some (MStr ''.pdf'') \<and>
   pdf_extract_metadata e file_path ''processor'' = Some (MStr ''PDFProcessor'') \<and>
   pdf_extract_metadata e file_path ''processing_method'' \<in> {Some (MStr ''pypdf''), Some (MStr ''basic'')}"
  by (simp add: pdf_extract_metadata_def basic_metadata_def Let_def set_if_truthy_keeps
      split: option.splits)

lemma copy_field_keeps: "m k = Some v \<Longrightarrow> k' \<noteq> k \<Longrightarrow> copy_field d k' m k = Some v"
  by (simp add: copy_field_def split: option.splits)

lemma json_extract_metadata_keys:
  "load_json e file_path = Some data \<Longrightarrow>
   json_extract_metadata e file_path ''file_extension'' = Some (MStr ''.json'') \<and>
   json_extract_metadata e file_path ''processor'' = Some (MStr ''JSONProcessor'') \<and>
   json_extract_metadata e file_path ''processing_method'' = Some (MStr ''json_parser'')"
  by (cases data) (simp_all add: json_extract_metadata_def copy_field_keeps)

text \<open>
  Claim C8: the code differs. \<open>PDFProcessor.extract_metadata\<close> always has the three keys,
  also where reading the file fails (\<open>pdf_extract_metadata_keys\<close>), and
  \<open>JSONProcessor.extract_metadata\<close> has them where the file parses
  (\<open>json_extract_metadata_keys\<close>); where opening or parsing the file fails it returns
  the empty dictionary, without any of the three.
\<close>

theorem json_extract_metadata_failure:
  "extract_metadata (e\<lparr>load_json := \<lambda>p. None\<rparr>) JSONProcessor file_path = Map.empty \<and>
   ''processor'' \<notin> dom (extract_metadata (e\<lparr>load_json := \<lambda>p. None\<rparr>) JSONProcessor file_path)"
  by (simp add: json_extract_metadata_def)

section \<open>Theorems about the ingestion endpoint\<close>

lemma ingest_file_adds:
  "ingest_file e fmt self db f st =
     \<lparr>processed_files = processed_files st + processed_files (ingest_alone e fmt self db f),
      failed_files = failed_files st + failed_files (ingest_alone e fmt self db f),
      errors = errors st @ errors (ingest_alone e fmt self db f),
      inserted = inserted st @ inserted (ingest_alone e fmt self db f)\<rparr>"
  by (simp add: ingest_alone_def ingest_file_def initial_state_def record_failure_def Let_def
      split: sum.splits prod.splits option.splits)

lemma ingest_loop_adds:
  "ingest_loop e fmt self db fs st =
     \<lparr>processed_files = processed_files st
        + sum_list (map (\<lambda>f. processed_files (ingest_alone e fmt self db f)) fs),
      failed_files = failed_files st
        + sum_list (map (\<lambda>f. failed_files (ingest_alone e fmt self db f)) fs),
      errors = errors st @ concat (map (\<lambda>f. errors (ingest_alone e fmt self db f)) fs),
      inserted = inserted st @ concat (map (\<lambda>f. inserted (ingest_alone e fmt self db f)) fs)\<rparr>"
proof (induction fs arbitrary: st)
  case Nil
  then show ?case by (simp add: ingest_loop_def)
next
  case (Cons f fs)
  have "ingest_loop e fmt self db (f # fs) st
      = ingest_loop e fmt self db fs (ingest_file e fmt self db f st)"
    by (simp add: ingest_loop_def)
  then show ?case
    by (simp add: Cons.IH ingest_file_adds [of e fmt self db f st] add.assoc)
qed

lemma ingest_alone_cases:
  "(processed_files (ingest_alone e fmt self db f) = 1 \<and>
    failed_files (ingest_alone e fmt self db f) = 0 \<and>
    errors (ingest_alone e fmt self db f) = [] \<and>
    length (inserted (ingest_alone e fmt self db f)) = 1) \<or>
   (processed_files (ingest_alone e fmt self db f) = 0 \<and>
    failed_files (ingest_alone e fmt self db f) = 1 \<and>
    length (errors (ingest_alone e fmt self db f)) = 1 \<and>
    inserted (ingest_alone e fmt self db f) = [])"
  by (simp add: ingest_alone_def ingest_file_def initial_state_def record_failure_def Let_def
      split: sum.splits prod.splits option.splits)

lemma ingest_alone_failures:
  "(exceeds_max_size self f \<longrightarrow>
      ingest_alone e fmt self db f =
        \<lparr>processed_files = 0, failed_files = 1,
         errors = [''File '' @ filename f @ '' exceeds maximum size (''
                   @ str_int (max_file_size self) @ '' bytes)''],
         inserted = []\<rparr>) \<and>
   (\<not> exceeds_max_size self f \<and> tmp_path f = Inl file_error \<longrightarrow>
      ingest_alone e fmt self db f =
        \<lparr>processed_files = 0, failed_files = 1,
         errors = [''File handling error for '' @ filename f @ '': '' @ file_error],
         inserted = []\<rparr>) \<and>
   (\<not> exceeds_max_size self f \<and> tmp_path f = Inr tmp \<and>
    fst (process_document e self tmp) = (text, md, ok) \<and> (\<not> ok \<or> strip text = []) \<longrightarrow>
      ingest_alone e fmt self db f =
        \<lparr>processed_files = 0, failed_files = 1,
         errors = [''Failed to extract text from '' @ filename f],
         inserted = []\<rparr>) \<and>
   (\<not> exceeds_max_size self f \<and> tmp_path f = Inr tmp \<and>
    fst (process_document e self tmp) = (text, md, True) \<and> strip text \<noteq> [] \<and>
    insert_error f = Some proc_error \<longrightarrow>
      ingest_alone e fmt self db f =
        \<lparr>processed_files = 0, failed_files = 1,
         errors = [''Processing error for '' @ filename f @ '': '' @ proc_error],
         inserted = []\<rparr>)"
  by (auto simp: ingest_alone_def ingest_file_def initial_state_def record_failure_def Let_def)

text \<open>
  Claim C7. The statistics of a batch are those of its documents, each handled on its
  own: the counters add up, the errors and the inserted batches follow the order of the
  documents. A document either counts as processed, with one batch inserted and no
  error, or as failed, with one error and nothing inserted; the error of each kind of
  failure names the document. For three documents of which the second exceeds the size
  limit and the other two are processed when handled alone, the statistics are 2
  processed, 1 failed and the one size error of the second document, and the batches of
  the first and the third are inserted.
\<close>

theorem ingest_isolates_failures:
  "ingest_loop e fmt self db files initial_state =
     \<lparr>processed_files = sum_list (map (\<lambda>f. processed_files (ingest_alone e fmt self db f)) files),
      failed_files = sum_list (map (\<lambda>f. failed_files (ingest_alone e fmt self db f)) files),
      errors = concat (map (\<lambda>f. errors (ingest_alone e fmt self db f)) files),
      inserted = concat (map (\<lambda>f. inserted (ingest_alone e fmt self db f)) files)\<rparr> \<and>
   ((processed_files (ingest_alone e fmt self db f) = 1 \<and>
     failed_files (ingest_alone e fmt self db f) = 0 \<and>
     errors (ingest_alone e fmt self db f) = [] \<and>
     length (inserted (ingest_alone e fmt self db f)) = 1) \<or>
    (processed_files (ingest_alone e fmt self db f) = 0 \<and>
     failed_files (ingest_alone e fmt self db f) = 1 \<and>
     length (errors (ingest_alone e fmt self db f)) = 1 \<and>
     inserted (ingest_alone e fmt self db f) = [])) \<and>
   (exceeds_max_size self f \<longrightarrow>
      errors (ingest_alone e fmt self db f) =
        [''File '' @ filename f @ '' exceeds maximum size (''
           @ str_int (max_file_size self) @ '' bytes)'']) \<and>
   (\<not> exceeds_max_size self f \<and> tmp_path f = Inl file_error \<longrightarrow>
      errors (ingest_alone e fmt self db f) =
        [''File handling error for '' @ filename f @ '': '' @ file_error]) \<and>
   (\<not> exceeds_max_size self f \<and> tmp_path f = Inr tmp \<and>
    fst (process_document e self tmp) = (text, md, ok) \<and> (\<not> ok \<or> strip text = []) \<longrightarrow>
      errors (ingest_alone e fmt self db f) = [''Failed to extract text from '' @ filename f]) \<and>
   (\<not> exceeds_max_size self f \<and> tmp_path f = Inr tmp \<and>
    fst (process_document e self tmp) = (text, md, True) \<and> strip text \<noteq> [] \<and>
    insert_error f = Some proc_error \<longrightarrow>
      errors (ingest_alone e fmt self db f) =
        [''Processing error for '' @ filename f @ '': '' @ proc_error]) \<and>
   (exceeds_max_size self f2 \<and>
    processed_files (ingest_alone e fmt self db f1) = 1 \<and>
    processed_files (ingest_alone e fmt self db f3) = 1 \<longrightarrow>
      ingest_loop e fmt self db [f1, f2, f3] initial_state =
        \<lparr>processed_files = 2, failed_files = 1,
         errors = [''File '' @ filename f2 @ '' exceeds maximum size (''
                    @ str_int (max_file_size self) @ '' bytes)''],
         inserted = inserted (ingest_alone e fmt self db f1)
                    @ inserted (ingest_alone e fmt self db f3)\<rparr>)"
proof -
  have three: "ingest_loop e fmt self db [f1, f2, f3] initial_state =
        \<lparr>processed_files = 2, failed_files = 1,
         errors = [''File '' @ filename f2 @ '' exceeds maximum size (''
                    @ str_int (max_file_size self) @ '' bytes)''],
         inserted = inserted (ingest_alone e fmt self db f1)
                    @ inserted (ingest_alone e fmt self db f3)\<rparr>"
    if a: "exceeds_max_size self f2"
      and b: "processed_files (ingest_alone e fmt self db f1) = 1"
      and c: "processed_files (ingest_alone e fmt self db f3) = 1"
  proof -
    have 1: "failed_files (ingest_alone e fmt self db f1) = 0"
        "errors (ingest_alone e fmt self db f1) = []"
      using ingest_alone_cases [of e fmt self db f1] b by auto
    have 3: "failed_files (ingest_alone e fmt self db f3) = 0"
        "errors (ingest_alone e fmt self db f3) = []"
      using ingest_alone_cases [of e fmt self db f3] c by auto
    have 2: "ingest_alone e fmt self db f2 =
        \<lparr>processed_files = 0, failed_files = 1,
         errors = [''File '' @ filename f2 @ '' exceeds maximum size (''
                   @ str_int (max_file_size self) @ '' bytes)''],
         inserted = []\<rparr>"
      using ingest_alone_failures [of self f2 e fmt db] a by blast
    show ?thesis
      by (simp add: ingest_loop_adds initial_state_def 1 2 3 b c)
  qed
  show ?thesis
    using ingest_alone_cases [of e fmt self db f]
      ingest_alone_failures [of self f e fmt db file_error tmp "text" md ok proc_error]
      three
    by (simp add: ingest_loop_adds initial_state_def)
qed

theorem ingest_isolates_failures_witness:
  "exceeds_max_size \<lparr>chunk_size = 20, chunk_overlap = 0, max_file_size = 1000\<rparr>
      \<lparr>filename = ''b.txt'', size = Some 5000, tmp_path = Inr ''/tmp/tmpab12_b.txt'', insert_error = None\<rparr> \<and>
   processed_files (ingest_alone
      \<lparr>stat = \<lambda>p. Regular 10, pypdf = False, read_pdf = \<lambda>p. None, pdf_text = \<lambda>p. [],
        load_json = \<lambda>p. None, json_text = \<lambda>p. [],
        read_text = \<lambda>p. Some ''Hello  world. Second sentence.''\<rparr>
      (\<lambda>v. []) \<lparr>chunk_size = 20, chunk_overlap = 0, max_file_size = 1000\<rparr> ''db''
      \<lparr>filename = ''a.txt'', size = Some 10, tmp_path = Inr ''/tmp/tmpab12_a.txt'', insert_error = None\<rparr>) = 1 \<and>
   processed_files (ingest_alone
      \<lparr>stat = \<lambda>p. Regular 10, pypdf = False, read_pdf = \<lambda>p. None, pdf_text = \<lambda>p. [],
        load_json = \<lambda>p. None, json_text = \<lambda>p. [],
        read_text = \<lambda>p. Some ''Hello  world. Second sentence.''\<rparr>
      (\<lambda>v. []) \<lparr>chunk_size = 20, chunk_overlap = 0, max_file_size = 1000\<rparr> ''db''
      \<lparr>filename = ''c.txt'', size = Some 10, tmp_path = Inr ''/tmp/tmpab12_c.txt'', insert_error = None\<rparr>) = 1 \<and>
   map (\<lambda>b. map content (snd b)) (inserted (ingest_alone
      \<lparr>stat = \<lambda>p. Regular 10, pypdf = False, read_pdf = \<lambda>p. None, pdf_text = \<lambda>p. [],
        load_json = \<lambda>p. None, json_text = \<lambda>p. [],
        read_text = \<lambda>p. Some ''Hello  world. Second sentence.''\<rparr>
      (\<lambda>v. []) \<lparr>chunk_size = 20, chunk_overlap = 0, max_file_size = 1000\<rparr> ''db''
      \<lparr>filename = ''a.txt'', size = Some 10, tmp_path = Inr ''/tmp/tmpab12_a.txt'', insert_error = None\<rparr>))
     = [[''Hello world.'', ''Second sentence.'']] \<and>
   ingest_loop
      \<lparr>stat = \<lambda>p. Regular 10, pypdf = False, read_pdf = \<lambda>p. None, pdf_text = \<lambda>p. [],
        load_json = \<lambda>p. None, json_text = \<lambda>p. [],
        read_text = \<lambda>p. Some ''Hello  world. Second sentence.''\<rparr>
      (\<lambda>v. []) \<lparr>chunk_size = 20, chunk_overlap = 0, max_file_size = 1000\<rparr> ''db''
      [\<lparr>filename = ''a.txt'', size = Some 10, tmp_path = Inr ''/tmp/tmpab12_a.txt'', insert_error = None\<rparr>,
       \<lparr>filename = ''b.txt'', size = Some 5000, tmp_path = Inr ''/tmp/tmpab12_b.txt'', insert_error = None\<rparr>,
       \<lparr>filename = ''c.txt'', size = Some 10, tmp_path = Inr ''/tmp/tmpab12_c.txt'', insert_error = None\<rparr>] initial_state =
     \<lparr>processed_files = 2, failed_files = 1,
      errors = [''File b.txt exceeds maximum size (1000 bytes)''],
      inserted = inserted (ingest_alone
      \<lparr>stat = \<lambda>p. Regular 10, pypdf = False, read_pdf = \<lambda>p. None, pdf_text = \<lambda>p. [],
        load_json = \<lambda>p. None, json_text = \<lambda>p. [],
        read_text = \<lambda>p. Some ''Hello  world. Second sentence.''\<rparr>
      (\<lambda>v. []) \<lparr>chunk_size = 20, chunk_overlap = 0, max_file_size = 1000\<rparr> ''db''
      \<lparr>filename = ''a.txt'', size = Some 10, tmp_path = Inr ''/tmp/tmpab12_a.txt'', insert_error = None\<rparr>)
        @ inserted (ingest_alone
      \<lparr>stat = \<lambda>p. Regular 10, pypdf = False, read_pdf = \<lambda>p. None, pdf_text = \<lambda>p. [],
        load_json = \<lambda>p. None, json_text = \<lambda>p. [],
        read_text = \<lambda>p. Some ''Hello  world. Second sentence.''\<rparr>
      (\<lambda>v. []) \<lparr>chunk_size = 20, chunk_overlap = 0, max_file_size = 1000\<rparr> ''db''
      \<lparr>filename = ''c.txt'', size = Some 10, tmp_path = Inr ''/tmp/tmpab12_c.txt'', insert_error = None\<rparr>)\<rparr>"
proof -
  let ?E = "\<lparr>stat = \<lambda>p. Regular 10, pypdf = False, read_pdf = \<lambda>p. None, pdf_text = \<lambda>p. [],
        load_json = \<lambda>p. None, json_text = \<lambda>p. [],
        read_text = \<lambda>p. Some ''Hello  world. Second sentence.''\<rparr>"
  let ?M = "\<lparr>chunk_size = 20, chunk_overlap = 0, max_file_size = 1000\<rparr>"
  let ?a = "\<lparr>filename = ''a.txt'', size = Some 10, tmp_path = Inr ''/tmp/tmpab12_a.txt'', insert_error = None\<rparr>"
  let ?b = "\<lparr>filename = ''b.txt'', size = Some 5000, tmp_path = Inr ''/tmp/tmpab12_b.txt'', insert_error = None\<rparr>"
  let ?c = "\<lparr>filename = ''c.txt'', size = Some 10, tmp_path = Inr ''/tmp/tmpab12_c.txt'', insert_error = None\<rparr>"
  have b: "exceeds_max_size ?M ?b" by code_simp
  have a: "processed_files (ingest_alone ?E (\<lambda>v. []) ?M ''db'' ?a) = 1" by code_simp
  have c: "processed_files (ingest_alone ?E (\<lambda>v. []) ?M ''db'' ?c) = 1" by code_simp
  have t: "map (\<lambda>b. map content (snd b)) (inserted (ingest_alone ?E (\<lambda>v. []) ?M ''db'' ?a))
     = [[''Hello world.'', ''Second sentence.'']]" by code_simp
  have m: "''File '' @ filename ?b @ '' exceeds maximum size ('' @ str_int (max_file_size ?M)
      @ '' bytes)'' = ''File b.txt exceeds maximum size (1000 bytes)''" by code_simp
  have "ingest_loop ?E (\<lambda>v. []) ?M ''db'' [?a, ?b, ?c] initial_state =
        \<lparr>processed_files = 2, failed_files = 1,
         errors = [''File '' @ filename ?b @ '' exceeds maximum size (''
                    @ str_int (max_file_size ?M) @ '' bytes)''],
         inserted = inserted (ingest_alone ?E (\<lambda>v. []) ?M ''db'' ?a)
                    @ inserted (ingest_alone ?E (\<lambda>v. []) ?M ''db'' ?c)\<rparr>"
    using ingest_isolates_failures [of ?E "(\<lambda>v. [])" ?M "''db''" "[]" ?a "[]" "[]" "[]" Map.empty True
        "[]" ?b ?a ?c] a b c
    by blast
  then show ?thesis unfolding m using a b c t by blast
qed

end
